theory Spec2Isabelle
  imports Complex_Main "HOL-Library.Word" "HOL-Library.Multiset"
begin

section \<open>JavaScript numbers as they occur in the image utilities\<close>

text \<open>
  A JavaScript number is an IEEE 754 double. A finite double is read as the real number
  it denotes, and every arithmetic operation returns the double nearest to its exact
  result, a tie going to the even significand (53 significant bits). The numbers of
  this program stay far from overflow and from the subnormal range, so the exponent
  is left unbounded. The only exceptional value that the code can produce is \<open>NaN\<close>,
  from \<open>0 / 0\<close> when nothing was sampled: each numerator is a sum or a count over the
  very elements that the denominator counts, so a non-zero numerator over zero (an
  infinity) does not arise. Channel values, their sums and the pixel counts are whole
  numbers below \<open>2 ^ 53\<close>, which doubles hold exactly; they are kept as integers.
\<close>

definition rhe :: "real \<Rightarrow> int" where
  \<comment> \<open>the nearest integer, a tie going to the even one\<close>
  "rhe y = (let f = \<lfloor>y\<rfloor>; d = y - of_int f
            in if d < 1 / 2 then f else if 1 / 2 < d then f + 1
               else if even f then f else f + 1)"

function expoUp :: "real \<Rightarrow> int" where
  "expoUp x = (if x < 2 then 0 else expoUp (x / 2) + 1)"
  by pat_completeness auto
termination
proof (relation "measure (\<lambda>x. nat \<lfloor>x\<rfloor>)")
  show "wf (measure (\<lambda>x::real. nat \<lfloor>x\<rfloor>))" by simp
next
  fix x :: real assume "\<not> x < 2"
  then have x: "2 \<le> x" by simp
  then have "x / 2 \<le> x - 1" by simp
  then have "\<lfloor>x / 2\<rfloor> \<le> \<lfloor>x - 1\<rfloor>" by (rule floor_mono)
  then have "\<lfloor>x / 2\<rfloor> < \<lfloor>x\<rfloor>" by simp
  moreover have "0 < \<lfloor>x\<rfloor>" using x by simp
  ultimately show "(x / 2, x) \<in> measure (\<lambda>x. nat \<lfloor>x\<rfloor>)" by simp
qed

function expoDown :: "real \<Rightarrow> int" where
  "expoDown x = (if x \<le> 0 \<or> 1 \<le> x then 0 else expoDown (x * 2) - 1)"
  by pat_completeness auto
termination
proof (relation "measure (\<lambda>x. nat \<lfloor>1 / x\<rfloor>)")
  show "wf (measure (\<lambda>x::real. nat \<lfloor>1 / x\<rfloor>))" by simp
next
  fix x :: real assume "\<not> (x \<le> 0 \<or> 1 \<le> x)"
  then have x: "0 < x" "x < 1" by simp_all
  define y where "y = 1 / x"
  have y: "1 < y" using x by (simp add: y_def)
  have half: "1 / (x * 2) = y / 2" by (simp add: y_def)
  have "\<lfloor>y / 2\<rfloor> < \<lfloor>y\<rfloor>"
  proof (cases "y < 2")
    case True
    then have "\<lfloor>y / 2\<rfloor> = 0" using y by (simp add: floor_eq_iff)
    moreover have "1 \<le> \<lfloor>y\<rfloor>" using y by simp
    ultimately show ?thesis by simp
  next
    case False
    then have "y / 2 \<le> y - 1" by simp
    then have "\<lfloor>y / 2\<rfloor> \<le> \<lfloor>y - 1\<rfloor>" by (rule floor_mono)
    then show ?thesis by simp
  qed
  moreover have "0 < \<lfloor>y\<rfloor>" using y by simp
  ultimately have "nat \<lfloor>y / 2\<rfloor> < nat \<lfloor>y\<rfloor>" by linarith
  then have "nat \<lfloor>1 / (x * 2)\<rfloor> < nat \<lfloor>1 / x\<rfloor>"
    by (simp only: half) (simp only: y_def)
  then show "(x * 2, x) \<in> measure (\<lambda>x. nat \<lfloor>1 / x\<rfloor>)"
    by (simp only: in_measure)
qed

declare expoUp.simps [simp del] expoDown.simps [simp del]

definition expo :: "real \<Rightarrow> int" where
  \<comment> \<open>the binary exponent of a positive number: \<open>2 powi expo x \<le> x < 2 powi (expo x + 1)\<close>\<close>
  "expo x = (if 1 \<le> x then expoUp x else expoDown x)"

definition rne :: "real \<Rightarrow> real" where
  \<comment> \<open>the nearest double\<close>
  "rne x = (if x = 0 then 0
            else (let q = 2 powi (expo \<bar>x\<bar> - 52) in of_int (rhe (x / q)) * q))"

datatype 'a jsnum = Num 'a | NaN

definition js_div :: "real \<Rightarrow> real \<Rightarrow> real jsnum" where
  \<comment> \<open>\<open>a / b\<close>; \<open>0 / 0\<close> is \<open>NaN\<close>.\<close>
  "js_div a b = (if b = 0 then NaN else Num (rne (a / b)))"

definition js_round :: "real \<Rightarrow> int" where
  \<comment> \<open>\<open>Math.round\<close>: the nearest integer, a tie going up.\<close>
  "js_round x = \<lfloor>x + 1 / 2\<rfloor>"

definition js_sub :: "real jsnum \<Rightarrow> real jsnum \<Rightarrow> real jsnum" where
  \<comment> \<open>\<open>a - b\<close>\<close>
  "js_sub a b = (case (a, b) of (Num x, Num y) \<Rightarrow> Num (rne (x - y)) | _ \<Rightarrow> NaN)"

definition js_plus :: "real jsnum \<Rightarrow> real jsnum \<Rightarrow> real jsnum" where
  \<comment> \<open>\<open>a + b\<close>\<close>
  "js_plus a b = (case (a, b) of (Num x, Num y) \<Rightarrow> Num (rne (x + y)) | _ \<Rightarrow> NaN)"

definition js_lt :: "real jsnum \<Rightarrow> real \<Rightarrow> bool" where
  \<comment> \<open>\<open>a < c\<close>: false as soon as \<open>a\<close> is \<open>NaN\<close>.\<close>
  "js_lt a c = (case a of Num x \<Rightarrow> x < c | NaN \<Rightarrow> False)"

definition js_ge :: "real jsnum \<Rightarrow> real jsnum \<Rightarrow> bool" where
  \<comment> \<open>\<open>a >= b\<close>: false as soon as one side is \<open>NaN\<close>.\<close>
  "js_ge a b = (case (a, b) of (Num x, Num y) \<Rightarrow> y \<le> x | _ \<Rightarrow> False)"

definition toFixed2 :: "real \<Rightarrow> real" where
  \<comment> \<open>\<open>parseFloat(x.toFixed(2))\<close>: \<open>toFixed\<close> writes the hundredth nearest to the exact value
      of the double, a tie going away from zero, and \<open>parseFloat\<close> reads the double nearest
      to what is written.\<close>
  "toFixed2 x = rne (if x < 0 then - (of_int \<lfloor>- x * 100 + 1 / 2\<rfloor> / 100)
                      else of_int \<lfloor>x * 100 + 1 / 2\<rfloor> / 100)"

section \<open>Array.prototype.sort with a comparator\<close>

text \<open>
  \<open>xs.sort(cmp)\<close> is stable (ECMAScript 2019): where the comparator is a consistent
  ordering of the elements, the outcome is the one stable arrangement, which insertion
  from the right computes. An element moves behind another only when the comparator
  is positive on the pair; a \<open>NaN\<close> comparison counts as zero.
\<close>

definition js_pos :: "real jsnum \<Rightarrow> bool" where
  "js_pos v = (case v of Num x \<Rightarrow> 0 < x | NaN \<Rightarrow> False)"

fun js_insort :: "('a \<Rightarrow> 'a \<Rightarrow> real jsnum) \<Rightarrow> 'a \<Rightarrow> 'a list \<Rightarrow> 'a list" where
  "js_insort cmp x [] = [x]"
| "js_insort cmp x (y # ys) =
     (if js_pos (cmp x y) then y # js_insort cmp x ys else x # y # ys)"

definition js_sort :: "('a \<Rightarrow> 'a \<Rightarrow> real jsnum) \<Rightarrow> 'a list \<Rightarrow> 'a list" where
  "js_sort cmp xs = foldr (js_insort cmp) xs []"

section \<open>Hexadecimal colour strings\<close>

definition hexDigit :: "nat \<Rightarrow> char" where
  "hexDigit d = ''0123456789abcdef'' ! d"

fun hexDigits :: "nat \<Rightarrow> string" where
  "hexDigits n = (if n < 16 then [hexDigit n] else hexDigits (n div 16) @ [hexDigit (n mod 16)])"

declare hexDigits.simps [simp del]

definition toString16 :: "int jsnum \<Rightarrow> string" where
  \<comment> \<open>\<open>x.toString(16)\<close> of a whole number or of \<open>NaN\<close>.\<close>
  "toString16 x = (case x of
       NaN \<Rightarrow> ''NaN''
     | Num i \<Rightarrow> (if i < 0 then CHR ''-'' # hexDigits (nat (- i)) else hexDigits (nat i)))"

definition rgbToHex :: "int jsnum \<Rightarrow> int jsnum \<Rightarrow> int jsnum \<Rightarrow> string" where
  "rgbToHex r g b =
     ''#'' @ concat (map (\<lambda>x. let hex = toString16 x
                               in if length hex = 1 then ''0'' @ hex else hex) [r, g, b])"

text \<open>
  Modelled from the spec: \<open>hexToRgb\<close>, the inverse that the round-trip property names,
  is missing from the source. It is taken as the reader of a seven-character
  \<open>#rrggbb\<close> string, each pair of hexadecimal digits giving one channel, and it
  rejects every other string.
\<close>

definition hexVal :: "char \<Rightarrow> nat option" where
  "hexVal c = (let n = of_char c :: nat in
     if 48 \<le> n \<and> n \<le> 57 then Some (n - 48)
     else if 97 \<le> n \<and> n \<le> 102 then Some (n - 87)
     else if 65 \<le> n \<and> n \<le> 70 then Some (n - 55)
     else None)"

definition hexPair :: "char \<Rightarrow> char \<Rightarrow> int option" where
  "hexPair hi lo = (case (hexVal hi, hexVal lo) of
       (Some h, Some l) \<Rightarrow> Some (int (16 * h + l))
     | _ \<Rightarrow> None)"

definition hexToRgb :: "string \<Rightarrow> (int \<times> int \<times> int) option" where
  "hexToRgb s = (case s of
       [h, r1, r2, g1, g2, b1, b2] \<Rightarrow>
         (if h = CHR ''#'' then
            (case (hexPair r1 r2, hexPair g1 g2, hexPair b1 b2) of
               (Some r, Some g, Some b) \<Rightarrow> Some (r, g, b)
             | _ \<Rightarrow> None)
          else None)
     | _ \<Rightarrow> None)"

definition twoHex :: "int \<Rightarrow> string" where
  \<comment> \<open>the two lowercase hexadecimal digits of a channel value, zero-padded\<close>
  "twoHex x = [hexDigit (nat x div 16), hexDigit (nat x mod 16)]"

section \<open>The pixel sampler\<close>

text \<open>
  \<open>ImageData.data\<close> is a \<open>Uint8ClampedArray\<close> holding four bytes (red, green, blue,
  alpha) for each pixel, so its length is \<open>4 * width * height\<close>. The loops below start
  at \<open>0\<close> and advance by a multiple of four, hence every index \<open>i\<close> below the length
  has \<open>i + 3\<close> below it as well, and the four reads of one step stay in the array.
\<close>

definition chanAt :: "8 word list \<Rightarrow> nat \<Rightarrow> int" where
  "chanAt pixels i = uint (pixels ! i)"

function samplePixels_from :: "8 word list \<Rightarrow> nat \<Rightarrow> int list list \<Rightarrow> int list list" where
  "samplePixels_from pixels i sampledColors =
     (if i < length pixels then
        (let r = chanAt pixels i;
             g = chanAt pixels (i + 1);
             b = chanAt pixels (i + 2);
             a = chanAt pixels (i + 3)
         in if a < 128 then samplePixels_from pixels (i + 40) sampledColors
            else samplePixels_from pixels (i + 40) (sampledColors @ [[r, g, b]]))
      else sampledColors)"
  by pat_completeness auto
termination
  by (relation "measure (\<lambda>(pixels, i, sampledColors). length pixels - i)") auto

declare samplePixels_from.simps [simp del]

definition samplePixels :: "8 word list \<Rightarrow> int list list" where
  "samplePixels pixels = samplePixels_from pixels 0 []"

text \<open>
  The sampler as the specification words it: the offsets of the flat array that are
  multiples of 40, in increasing order, those kept whose alpha byte is at least 128,
  each giving the three colour bytes found there.
\<close>

definition sampleOffsets :: "8 word list \<Rightarrow> nat list" where
  "sampleOffsets pixels = filter (\<lambda>i. i mod 40 = 0) [0..<length pixels]"

definition samplePixels_spec :: "8 word list \<Rightarrow> int list list" where
  "samplePixels_spec pixels =
     map (\<lambda>i. [chanAt pixels i, chanAt pixels (i + 1), chanAt pixels (i + 2)])
         (filter (\<lambda>i. 128 \<le> chanAt pixels (i + 3)) (sampleOffsets pixels))"

section \<open>Median cut\<close>

definition averageColor :: "int list list \<Rightarrow> int jsnum list" where
  \<comment> \<open>the base case: channel sums, each divided by the bucket size and rounded\<close>
  "averageColor colors =
     (let avg = foldl (\<lambda>avg color. [avg ! 0 + color ! 0, avg ! 1 + color ! 1, avg ! 2 + color ! 2])
                      [0, 0, 0] colors
      in map (\<lambda>s. map_jsnum js_round (js_div (real_of_int s) (real (length colors)))) avg)"

definition channelRange :: "int list list \<Rightarrow> nat \<Rightarrow> int" where
  "channelRange colors channel =
     (let values = map (\<lambda>color. color ! channel) colors
      in Max (set values) - Min (set values))"

definition channelRanges :: "int list list \<Rightarrow> int list" where
  "channelRanges colors = map (channelRange colors) [0, 1, 2]"

fun indexOf :: "int list \<Rightarrow> int \<Rightarrow> int" where
  \<comment> \<open>\<open>xs.indexOf(v)\<close>: the first position of \<open>v\<close>, or \<open>-1\<close>\<close>
  "indexOf [] v = - 1"
| "indexOf (x # xs) v =
     (if x = v then 0 else (let i = indexOf xs v in if i < 0 then - 1 else i + 1))"

definition maxChannel :: "int list list \<Rightarrow> int" where
  "maxChannel colors = (let ranges = channelRanges colors in indexOf ranges (Max (set ranges)))"

definition sortedBucket :: "int list list \<Rightarrow> int list list" where
  \<comment> \<open>the bucket after \<open>colors.sort((a, b) => a[maxChannel] - b[maxChannel])\<close>\<close>
  "sortedBucket colors =
     (let m = nat (maxChannel colors)
      in js_sort (\<lambda>a b. Num (real_of_int (a ! m - b ! m))) colors)"

function medianCut :: "int list list \<Rightarrow> nat \<Rightarrow> int jsnum list list" where
  "medianCut colors depth =
     (if depth = 0 \<or> length colors \<le> 1 then [averageColor colors]
      else
        (let sorted = sortedBucket colors;
             mid = length sorted div 2;
             left = take mid sorted;
             right = drop mid sorted
         in medianCut left (depth - 1) @ medianCut right (depth - 1)))"
  by pat_completeness auto
termination
  by (relation "measure (\<lambda>(colors, depth). depth)") auto

declare medianCut.simps [simp del]

text \<open>
  The sort is in place, so the caller's array is reordered by the outermost call; the
  halves are copies (\<open>slice\<close>), so the inner calls leave it alone.
\<close>

definition medianCut_array :: "int list list \<Rightarrow> nat \<Rightarrow> int list list" where
  "medianCut_array colors depth =
     (if depth = 0 \<or> length colors \<le> 1 then colors else sortedBucket colors)"

text \<open>
  The same recursion with nothing said about whether it ends: a run that does not
  return has the value \<open>None\<close>.
\<close>

partial_function (option) medianCut_run :: "int list list \<Rightarrow> nat \<Rightarrow> int jsnum list list option" where
  "medianCut_run colors depth =
     (if depth = 0 \<or> length colors \<le> 1 then Some [averageColor colors]
      else
        Option.bind (medianCut_run (take (length (sortedBucket colors) div 2) (sortedBucket colors)) (depth - 1))
          (\<lambda>l. Option.bind (medianCut_run (drop (length (sortedBucket colors) div 2) (sortedBucket colors)) (depth - 1))
            (\<lambda>r. Some (l @ r))))"

text \<open>The calls that one activation of \<open>medianCut\<close> makes.\<close>

inductive medianCut_call :: "int list list \<times> nat \<Rightarrow> int list list \<times> nat \<Rightarrow> bool" where
  call_left: "\<not> (depth = 0 \<or> length colors \<le> 1) \<Longrightarrow>
     medianCut_call (colors, depth)
       (take (length (sortedBucket colors) div 2) (sortedBucket colors), depth - 1)"
| call_right: "\<not> (depth = 0 \<or> length colors \<le> 1) \<Longrightarrow>
     medianCut_call (colors, depth)
       (drop (length (sortedBucket colors) div 2) (sortedBucket colors), depth - 1)"

section \<open>The palette\<close>

definition getColorDistance :: "int list \<Rightarrow> int jsnum list \<Rightarrow> real jsnum" where
  "getColorDistance color1 color2 =
     (case (color2 ! 0, color2 ! 1, color2 ! 2) of
        (Num c0, Num c1, Num c2) \<Rightarrow>
          Num (rne (sqrt (real_of_int ((color1 ! 0 - c0)\<^sup>2 + (color1 ! 1 - c1)\<^sup>2 + (color1 ! 2 - c2)\<^sup>2))))
      | _ \<Rightarrow> NaN)"

record ColorInfo =
  hex :: string
  rgb :: "int jsnum \<times> int jsnum \<times> int jsnum"
  percentage :: "real jsnum"

record ColorPalette =
  dominantColors :: "ColorInfo list"

definition withinThreshold :: "int list \<Rightarrow> int jsnum list \<Rightarrow> bool" where
  \<comment> \<open>\<open>getColorDistance(pixel, color) < 50\<close>\<close>
  "withinThreshold pixel color = js_lt (getColorDistance pixel color) 50"

definition colorCount :: "int list list \<Rightarrow> int jsnum list \<Rightarrow> nat" where
  \<comment> \<open>how many samples lie at a distance below 50 from the colour\<close>
  "colorCount sampledColors color =
     foldl (\<lambda>cnt pixel. if withinThreshold pixel color then cnt + 1 else cnt) 0 sampledColors"

definition colorInfo :: "nat \<Rightarrow> int jsnum list \<Rightarrow> nat \<Rightarrow> ColorInfo" where
  "colorInfo totalPixels color cnt =
     \<lparr> hex = rgbToHex (color ! 0) (color ! 1) (color ! 2),
       rgb = (color ! 0, color ! 1, color ! 2),
       percentage = map_jsnum (\<lambda>q. toFixed2 (rne (q * 100))) (js_div (real cnt) (real totalPixels)) \<rparr>"

definition extractColorPalette :: "8 word list \<Rightarrow> nat \<Rightarrow> ColorPalette" where
  "extractColorPalette pixels numColors =
     (let sampled = samplePixels pixels;
          palette = medianCut sampled numColors;
          sampledColors = medianCut_array sampled numColors;
          totalPixels = length sampledColors;
          colorCounts = map (colorCount sampledColors) palette;
          entries = map (\<lambda>(color, cnt). colorInfo totalPixels color cnt) (zip palette colorCounts)
      in \<lparr> dominantColors = js_sort (\<lambda>a b. js_sub (percentage b) (percentage a)) entries \<rparr>)"

section \<open>Image statistics\<close>

record ColorDistribution =
  red :: "real jsnum"
  green :: "real jsnum"
  blue :: "real jsnum"

record ImageStats =
  averageBrightness :: "real jsnum"
  averageContrast :: "real jsnum"
  colorDistribution :: ColorDistribution

record StatTotals =
  totalBrightness :: real
  totalRed :: int
  totalGreen :: int
  totalBlue :: int
  pixelCount :: nat

definition brightnessOf :: "int \<Rightarrow> int \<Rightarrow> int \<Rightarrow> real" where
  \<comment> \<open>perceived luminance, \<open>0.299 * r + 0.587 * g + 0.114 * b\<close>: each literal is the nearest
      double, each product and each sum is rounded, from left to right\<close>
  "brightnessOf r g b =
     rne (rne (rne (rne (299 / 1000) * real_of_int r) + rne (rne (587 / 1000) * real_of_int g))
          + rne (rne (114 / 1000) * real_of_int b))"

function statTotals :: "8 word list \<Rightarrow> nat \<Rightarrow> StatTotals \<Rightarrow> StatTotals" where
  "statTotals pixels i t =
     (if i < length pixels then
        (let r = chanAt pixels i;
             g = chanAt pixels (i + 1);
             b = chanAt pixels (i + 2);
             a = chanAt pixels (i + 3)
         in if a < 128 then statTotals pixels (i + 4) t
            else statTotals pixels (i + 4)
                   \<lparr> totalBrightness = rne (totalBrightness t + brightnessOf r g b),
                     totalRed = totalRed t + r,
                     totalGreen = totalGreen t + g,
                     totalBlue = totalBlue t + b,
                     pixelCount = pixelCount t + 1 \<rparr>)
      else t)"
  by pat_completeness auto
termination
  by (relation "measure (\<lambda>(pixels, i, t). length pixels - i)") auto

declare statTotals.simps [simp del]

definition js_sq :: "real jsnum \<Rightarrow> real jsnum" where
  \<comment> \<open>\<open>Math.pow(x, 2)\<close>\<close>
  "js_sq a = map_jsnum (\<lambda>x. rne (x\<^sup>2)) a"

definition js_quot :: "real jsnum \<Rightarrow> real \<Rightarrow> real jsnum" where
  "js_quot a b = (case a of Num x \<Rightarrow> js_div x b | NaN \<Rightarrow> NaN)"

function varianceLoop :: "8 word list \<Rightarrow> real jsnum \<Rightarrow> nat \<Rightarrow> real jsnum \<Rightarrow> real jsnum" where
  "varianceLoop pixels avgBrightness i varianceSum =
     (if i < length pixels then
        (let r = chanAt pixels i;
             g = chanAt pixels (i + 1);
             b = chanAt pixels (i + 2);
             a = chanAt pixels (i + 3)
         in if a < 128 then varianceLoop pixels avgBrightness (i + 4) varianceSum
            else varianceLoop pixels avgBrightness (i + 4)
                   (js_plus varianceSum (js_sq (js_sub (Num (brightnessOf r g b)) avgBrightness))))
      else varianceSum)"
  by pat_completeness auto
termination
  by (relation "measure (\<lambda>(pixels, avgBrightness, i, varianceSum). length pixels - i)") auto

declare varianceLoop.simps [simp del]

definition calculateImageStats :: "8 word list \<Rightarrow> ImageStats" where
  "calculateImageStats pixels =
     (let t = statTotals pixels 0
                \<lparr> totalBrightness = 0, totalRed = 0, totalGreen = 0, totalBlue = 0, pixelCount = 0 \<rparr>;
          avgBrightness = js_div (totalBrightness t) (real (pixelCount t));
          avgRed = js_div (real_of_int (totalRed t)) (real (pixelCount t));
          avgGreen = js_div (real_of_int (totalGreen t)) (real (pixelCount t));
          avgBlue = js_div (real_of_int (totalBlue t)) (real (pixelCount t));
          varianceSum = varianceLoop pixels avgBrightness 0 (Num 0);
          contrast = map_jsnum (\<lambda>v. rne (sqrt v)) (js_quot varianceSum (real (pixelCount t)))
      in \<lparr> averageBrightness = map_jsnum toFixed2 avgBrightness,
           averageContrast = map_jsnum toFixed2 contrast,
           colorDistribution =
             \<lparr> red = map_jsnum toFixed2 avgRed,
               green = map_jsnum toFixed2 avgGreen,
               blue = map_jsnum toFixed2 avgBlue \<rparr> \<rparr>)"

section \<open>Reading the model's answer\<close>

text \<open>
  \<open>JSON.parse\<close> belongs to the platform: it either returns the value that the text
  denotes or throws a \<open>SyntaxError\<close>. It is a parameter of the model below, with
  \<open>None\<close> for the throw. Strings are taken over characters of one byte, which is where
  the fences and the white space that the code looks for live.
\<close>

datatype json =
    JNull
  | JBool bool
  | JNumber real
  | JString string
  | JArray "json list"
  | JObject "(string \<times> json) list"

definition newline :: char where
  "newline = CHR 0x0A"

definition fence :: string where
  \<comment> \<open>three backquotes\<close>
  "fence = [CHR 0x60, CHR 0x60, CHR 0x60]"

definition isWhiteSpace :: "char \<Rightarrow> bool" where
  \<comment> \<open>what \<open>trim\<close> strips, among the characters of one byte: space, tab, line feed, vertical
      tab, form feed, carriage return and the no-break space\<close>
  "isWhiteSpace c = (c \<in> set [CHR 0x20, CHR 0x09, CHR 0x0A, CHR 0x0B, CHR 0x0C, CHR 0x0D, CHR 0xA0])"

definition trim :: "string \<Rightarrow> string" where
  "trim s = rev (dropWhile isWhiteSpace (rev (dropWhile isWhiteSpace s)))"

definition startsWith :: "string \<Rightarrow> string \<Rightarrow> bool" where
  "startsWith s p = (take (length p) s = p)"

function removeAll :: "string \<Rightarrow> string \<Rightarrow> string" where
  \<comment> \<open>\<open>s.replace(/p\n?/g, '')\<close> for a literal, non-empty \<open>p\<close>\<close>
  "removeAll p s =
     (if s = [] \<or> p = [] then s
      else if startsWith s p then
        (let rest = drop (length p) s
         in removeAll p (if startsWith rest [newline] then tl rest else rest))
      else hd s # removeAll p (tl s))"
  by pat_completeness auto
termination
  by (relation "measure (\<lambda>(p, s). length s)") (auto simp: startsWith_def)

declare removeAll.simps [simp del]

definition cleanResponse :: "string \<Rightarrow> string" where
  "cleanResponse text =
     (let cleaned = trim text
      in if startsWith cleaned (fence @ ''json'') then removeAll fence (removeAll (fence @ ''json'') cleaned)
         else if startsWith cleaned fence then removeAll fence cleaned
         else cleaned)"

definition parseJSONResponse :: "(string \<Rightarrow> json option) \<Rightarrow> string \<Rightarrow> json \<Rightarrow> json" where
  "parseJSONResponse JSON_parse text fallback =
     (case JSON_parse (cleanResponse text) of
        Some v \<Rightarrow> v
      | None \<Rightarrow> fallback)"

text \<open>
  The analysis asks the model once for each capability that is switched on, in a fixed
  order, inside one \<open>try\<close>. A request either yields the answer's text or throws; a
  throw ends the analysis with an error that carries the message. Reading the file
  into base64 comes before and is taken to have succeeded.
\<close>

datatype prompt = OcrPrompt | ObjectPrompt | DescPrompt | UiPrompt | DesignPrompt

record AnalysisOptions =
  extractOCR :: bool
  detectObjects :: bool
  analyzeUI :: bool
  analyzeDesign :: bool

record GeminiAnalysis =
  ocr :: "json option"
  objects :: "json option"
  description :: "string option"
  uiElements :: "json option"
  designAnalysis :: "json option"

definition askModel ::
  "(prompt \<Rightarrow> string + string) \<Rightarrow> bool \<Rightarrow> prompt \<Rightarrow> (string \<Rightarrow> GeminiAnalysis \<Rightarrow> GeminiAnalysis)
     \<Rightarrow> string + GeminiAnalysis \<Rightarrow> string + GeminiAnalysis" where
  \<comment> \<open>one guarded request: skipped when switched off or when an earlier one threw\<close>
  "askModel generateContent enabled p store acc =
     (case acc of
        Inl e \<Rightarrow> Inl e
      | Inr result \<Rightarrow>
          (if enabled then
             (case generateContent p of
                Inl e \<Rightarrow> Inl e
              | Inr text \<Rightarrow> Inr (store text result))
           else Inr result))"

definition designFallback :: json where
  "designFallback = JObject [(''colorHarmony'', JString ''N/A''),
                             (''typography'', JString ''N/A''),
                             (''layout'', JString ''N/A'')]"

definition analyzeImageWithGemini ::
  "(string \<Rightarrow> json option) \<Rightarrow> (prompt \<Rightarrow> string + string) \<Rightarrow> string \<Rightarrow> AnalysisOptions
     \<Rightarrow> string + GeminiAnalysis" where
  "analyzeImageWithGemini JSON_parse generateContent apiKey options =
     (if apiKey = [] then Inl ''Gemini API key is required''
      else
        (let result0 = \<lparr> ocr = None, objects = None, description = None,
                         uiElements = None, designAnalysis = None \<rparr>;
             s1 = askModel generateContent (extractOCR options) OcrPrompt
                    (\<lambda>text result. result\<lparr> ocr := Some (parseJSONResponse JSON_parse text (JArray [])) \<rparr>)
                    (Inr result0);
             s2 = askModel generateContent (detectObjects options) ObjectPrompt
                    (\<lambda>text result. result\<lparr> objects := Some (parseJSONResponse JSON_parse text (JArray [])) \<rparr>)
                    s1;
             s3 = askModel generateContent (detectObjects options \<or> analyzeDesign options) DescPrompt
                    (\<lambda>text result. result\<lparr> description := Some (trim text) \<rparr>)
                    s2;
             s4 = askModel generateContent (analyzeUI options) UiPrompt
                    (\<lambda>text result. result\<lparr> uiElements := Some (parseJSONResponse JSON_parse text (JArray [])) \<rparr>)
                    s3;
             s5 = askModel generateContent (analyzeDesign options) DesignPrompt
                    (\<lambda>text result. result\<lparr> designAnalysis := Some (parseJSONResponse JSON_parse text designFallback) \<rparr>)
                    s4
         in case s5 of
              Inl e \<Rightarrow> Inl (''Failed to analyze image with Gemini: '' @ e)
            | Inr result \<Rightarrow> Inr result))"

section \<open>Auxiliary notions for the statements\<close>

definition js_add :: "real jsnum \<Rightarrow> real jsnum \<Rightarrow> real jsnum" where
  \<comment> \<open>the exact sum of two numbers, for adding up the percentages of a palette\<close>
  "js_add a b = (case (a, b) of (Num x, Num y) \<Rightarrow> Num (x + y) | _ \<Rightarrow> NaN)"





definition percentValue :: "ColorInfo \<Rightarrow> real" where
  \<comment> \<open>the percentage of an entry as a real number, where it is one\<close>
  "percentValue e = (case percentage e of Num p \<Rightarrow> p | NaN \<Rightarrow> 0)"

definition elevenPixelRow :: "8 word list" where
  \<comment> \<open>an 11 by 1 image: opaque black first, opaque dark red last, transparent black between\<close>
  "elevenPixelRow = [0, 0, 0, 255] @ replicate 36 0 @ [10, 0, 0, 255]"

definition onlyEmptyArray :: "string \<Rightarrow> json option" where
  \<comment> \<open>a reader that accepts the empty array, white space around it allowed, and nothing else\<close>
  "onlyEmptyArray s = (if trim s = ''[]'' then Some (JArray []) else None)"

section \<open>Properties of the rounding\<close>

lemma pow2_pos: "0 < (2::real) powi e"
  by simp

lemma pow2_Suc: "(2::real) powi (e + 1) = 2 * 2 powi e"
  by (simp add: power_int_add_1')

lemma pow2_pred: "(2::real) powi (e - 1) = 2 powi e / 2"
  using pow2_Suc [of "e - 1"] by simp

lemma pow2_mono: "a \<le> b \<Longrightarrow> (2::real) powi a \<le> 2 powi b"
  by (rule power_int_increasing) simp_all

lemma pow2_strict: "a < b \<Longrightarrow> (2::real) powi a < 2 powi b"
  by (rule power_int_strict_increasing) simp_all

lemma expoUp_spec:
  "1 \<le> x \<Longrightarrow> 0 \<le> expoUp x \<and> 2 powi (expoUp x) \<le> x \<and> x < 2 powi (expoUp x + 1)"
proof (induction x rule: expoUp.induct)
  case (1 x)
  show ?case
  proof (cases "x < 2")
    case True
    then have "expoUp x = 0" by (simp add: expoUp.simps [of x])
    then show ?thesis using True "1.prems" by simp
  next
    case False
    then have "1 \<le> x / 2" by simp
    from "1.IH" [OF False this]
    have ih: "0 \<le> expoUp (x / 2)" "2 powi (expoUp (x / 2)) \<le> x / 2"
      "x / 2 < 2 powi (expoUp (x / 2) + 1)" by simp_all
    have e: "expoUp x = expoUp (x / 2) + 1" using False by (simp add: expoUp.simps [of x])
    have "2 powi (expoUp (x / 2) + 1) \<le> x" using ih(2) by (simp add: pow2_Suc)
    moreover have "x < 2 powi (expoUp (x / 2) + 1 + 1)"
    proof -
      have "(2::real) powi (expoUp (x / 2) + 1 + 1) = 2 * 2 powi (expoUp (x / 2) + 1)"
        by (rule pow2_Suc)
      with ih(3) show ?thesis by linarith
    qed
    ultimately show ?thesis using ih(1) e by simp
  qed
qed

lemma expoDown_spec:
  "0 < x \<Longrightarrow> x < 1 \<Longrightarrow> 2 powi (expoDown x) \<le> x \<and> x < 2 powi (expoDown x + 1)"
proof (induction x rule: expoDown.induct)
  case (1 x)
  have nb: "\<not> (x \<le> 0 \<or> 1 \<le> x)" using "1.prems" by simp
  have e: "expoDown x = expoDown (x * 2) - 1" using nb by (simp add: expoDown.simps [of x])
  show ?case
  proof (cases "1 \<le> x * 2")
    case True
    then have "expoDown (x * 2) = 0" by (simp add: expoDown.simps [of "x * 2"])
    then have "expoDown x = - 1" using e by simp
    then show ?thesis using True "1.prems" by (simp add: power_int_minus)
  next
    case False
    then have "x * 2 < 1" by simp
    moreover have "0 < x * 2" using "1.prems" by simp
    ultimately have ih: "2 powi (expoDown (x * 2)) \<le> x * 2" "x * 2 < 2 powi (expoDown (x * 2) + 1)"
      using "1.IH" [OF nb] by simp_all
    have "2 powi (expoDown (x * 2) - 1) \<le> x" using ih(1) by (simp add: pow2_pred)
    moreover have "x < 2 powi (expoDown (x * 2) - 1 + 1)" using ih(2) by (simp add: pow2_Suc)
    ultimately show ?thesis using e by simp
  qed
qed

lemma expo_spec: "0 < x \<Longrightarrow> 2 powi (expo x) \<le> x \<and> x < 2 powi (expo x + 1)"
  using expoUp_spec [of x] expoDown_spec [of x] by (cases "1 \<le> x") (simp_all add: expo_def)

lemma expo_unique:
  assumes "0 < x" "2 powi e \<le> x" "x < 2 powi (e + 1)"
  shows "expo x = e"
proof (rule ccontr)
  assume ne: "expo x \<noteq> e"
  from expo_spec [OF assms(1)] have s: "2 powi (expo x) \<le> x" "x < 2 powi (expo x + 1)" by simp_all
  show False
  proof (cases "expo x < e")
    case True
    then have "(2::real) powi (expo x + 1) \<le> 2 powi e" by (intro pow2_mono) simp
    with s(2) assms(2) show False by simp
  next
    case False
    with ne have "e + 1 \<le> expo x" by simp
    then have "(2::real) powi (e + 1) \<le> 2 powi (expo x)" by (rule pow2_mono)
    with s(1) assms(3) show False by simp
  qed
qed

lemma expo_mono:
  assumes "0 < x" "x \<le> y"
  shows "expo x \<le> expo y"
proof (rule ccontr)
  assume "\<not> expo x \<le> expo y"
  then have "expo y + 1 \<le> expo x" by simp
  then have "(2::real) powi (expo y + 1) \<le> 2 powi (expo x)" by (rule pow2_mono)
  moreover have "2 powi (expo x) \<le> x" using expo_spec [OF assms(1)] by simp
  moreover have "y < 2 powi (expo y + 1)" using expo_spec [of y] assms by simp
  ultimately show False using assms(2) by simp
qed

lemma rhe_err: "\<bar>of_int (rhe y) - y\<bar> \<le> 1 / 2"
  unfolding rhe_def Let_def by (auto simp: abs_if) linarith+

lemma rhe_of_int: "rhe (of_int m) = m"
  by (simp add: rhe_def)

lemma rhe_between: "\<lfloor>y\<rfloor> \<le> rhe y \<and> rhe y \<le> \<lfloor>y\<rfloor> + 1"
  by (simp add: rhe_def Let_def)

lemma rhe_mono:
  assumes "x \<le> y"
  shows "rhe x \<le> rhe y"
proof (cases "\<lfloor>x\<rfloor> = \<lfloor>y\<rfloor>")
  case True
  have "x - of_int \<lfloor>x\<rfloor> \<le> y - of_int \<lfloor>y\<rfloor>" using assms True by simp
  then show ?thesis using True by (auto simp: rhe_def Let_def)
next
  case False
  have "\<lfloor>x\<rfloor> \<le> \<lfloor>y\<rfloor>" using assms by (rule floor_mono)
  with False have "\<lfloor>x\<rfloor> + 1 \<le> \<lfloor>y\<rfloor>" by simp
  then show ?thesis using rhe_between [of x] rhe_between [of y] by linarith
qed

lemma rne_0: "rne 0 = 0"
  by (simp add: rne_def)

lemma rne_err: "\<bar>rne x - x\<bar> \<le> \<bar>x\<bar> / 2 ^ 53"
proof (cases "x = 0")
  case True
  then show ?thesis by (simp add: rne_def)
next
  case False
  define q where "q = (2::real) powi (expo \<bar>x\<bar> - 52)"
  have q: "0 < q" by (simp add: q_def)
  have r: "rne x = of_int (rhe (x / q)) * q" using False by (simp add: rne_def q_def Let_def)
  have "rne x - x = (of_int (rhe (x / q)) - x / q) * q" using q by (simp add: r field_simps)
  then have "\<bar>rne x - x\<bar> = \<bar>of_int (rhe (x / q)) - x / q\<bar> * q" using q by (simp add: abs_mult)
  also have "\<dots> \<le> 1 / 2 * q" using rhe_err [of "x / q"] q by (intro mult_right_mono) simp_all
  finally have a: "\<bar>rne x - x\<bar> \<le> q / 2" by simp
  have "2 powi (expo \<bar>x\<bar>) \<le> \<bar>x\<bar>" using expo_spec [of "\<bar>x\<bar>"] False by simp
  moreover have "q = 2 powi (expo \<bar>x\<bar>) / 2 ^ 52"
    by (simp add: q_def power_int_diff)
  ultimately have "q \<le> \<bar>x\<bar> / 2 ^ 52" by (simp add: divide_right_mono)
  then have "q / 2 \<le> \<bar>x\<bar> / 2 ^ 53" by simp
  with a show ?thesis by linarith
qed

lemma rne_of_int:
  assumes "0 \<le> k" "k < 2 ^ 53"
  shows "rne (of_int k) = of_int k"
proof (cases "k = 0")
  case True
  then show ?thesis by (simp add: rne_def)
next
  case False
  with assms have k: "1 \<le> k" by simp
  define e where "e = expo (of_int k)"
  have kp: "(0::real) < of_int k" using k by simp
  from expo_spec [OF kp] have s: "2 powi e \<le> (of_int k :: real)" by (simp add: e_def)
  have e0: "0 \<le> e"
  proof -
    have "(1::real) \<le> of_int k" using k by simp
    then have "expo (of_int k) = expoUp (of_int k)" by (simp add: expo_def)
    moreover have "0 \<le> expoUp (of_int k :: real)" using expoUp_spec [of "of_int k"] k by simp
    ultimately show ?thesis by (simp add: e_def)
  qed
  have e52: "e \<le> 52"
  proof (rule ccontr)
    assume "\<not> e \<le> 52"
    then have "53 \<le> e" by simp
    then have "(2::real) powi 53 \<le> 2 powi e" by (rule pow2_mono)
    with s have "(2::real) ^ 53 \<le> of_int k" by simp
    then have "(2::int) ^ 53 \<le> k" by (metis of_int_le_iff of_int_numeral of_int_power)
    with assms(2) show False by simp
  qed
  define n where "n = nat (52 - e)"
  have q: "(2::real) powi (e - 52) = 1 / 2 ^ n"
  proof -
    have "e - 52 = - int n" using e52 by (simp add: n_def)
    then have "(2::real) powi (e - 52) = 2 powi (- int n)" by (simp only:)
    also have "\<dots> = inverse (2 powi int n)" by (rule power_int_minus)
    also have "\<dots> = 1 / 2 ^ n" by (simp add: inverse_eq_divide)
    finally show ?thesis .
  qed
  have "(of_int k :: real) / (1 / 2 ^ n) = of_int (k * 2 ^ n)" by simp
  then have "rhe (of_int k / (1 / 2 ^ n)) = k * 2 ^ n" by (simp only: rhe_of_int)
  then have "rne (of_int k) = of_int (k * 2 ^ n) * (1 / 2 ^ n)"
    using kp by (simp add: rne_def Let_def e_def [symmetric] q)
  then show ?thesis by simp
qed

lemma rne_binade:
  assumes "0 < x"
  shows "2 powi (expo x) \<le> rne x \<and> rne x \<le> 2 powi (expo x + 1)"
proof -
  define e where "e = expo x"
  define q where "q = (2::real) powi (e - 52)"
  have q: "0 < q" by (simp add: q_def)
  have r: "rne x = of_int (rhe (x / q)) * q" using assms by (simp add: rne_def q_def e_def Let_def)
  from expo_spec [OF assms] have s: "2 powi e \<le> x" "x < 2 powi (e + 1)" by (simp_all add: e_def)
  have lo: "2 powi e = 2 ^ 52 * q" by (simp add: q_def power_int_diff)
  have hi: "2 powi (e + 1) = 2 ^ 53 * q" by (simp add: q_def power_int_diff pow2_Suc)
  have "(2::real) ^ 52 \<le> x / q" using s(1) q by (simp add: lo pos_le_divide_eq)
  then have "rhe (of_int (2 ^ 52)) \<le> rhe (x / q)" by (intro rhe_mono) simp
  then have a: "(2::int) ^ 52 \<le> rhe (x / q)" by (simp only: rhe_of_int)
  have "x / q \<le> (2::real) ^ 53" using s(2) q by (simp add: hi pos_divide_le_eq)
  then have "rhe (x / q) \<le> rhe (of_int (2 ^ 53))" by (intro rhe_mono) simp
  then have b: "rhe (x / q) \<le> (2::int) ^ 53" by (simp only: rhe_of_int)
  have "(2::real) ^ 52 \<le> of_int (rhe (x / q))" using a by (metis of_int_le_iff of_int_numeral of_int_power)
  then have "2 ^ 52 * q \<le> of_int (rhe (x / q)) * q" using q by (intro mult_right_mono) simp_all
  moreover have "of_int (rhe (x / q)) \<le> (2::real) ^ 53" using b by (metis of_int_le_iff of_int_numeral of_int_power)
  then have "of_int (rhe (x / q)) * q \<le> 2 ^ 53 * q" using q by (intro mult_right_mono) simp_all
  ultimately show ?thesis using r lo hi by (simp add: e_def)
qed

lemma rne_mono:
  assumes "0 \<le> x" "x \<le> y"
  shows "rne x \<le> rne y"
proof (cases "x = 0")
  case True
  have "0 \<le> rne y"
  proof (cases "y = 0")
    case True then show ?thesis by (simp add: rne_0)
  next
    case False
    with assms True have "0 < y" by simp
    from rne_binade [OF this] pow2_pos [of "expo y"] show ?thesis by linarith
  qed
  then show ?thesis using True by (simp add: rne_0)
next
  case False
  with assms have x: "0 < x" and y: "0 < y" by simp_all
  show ?thesis
  proof (cases "expo x = expo y")
    case True
    define q where "q = (2::real) powi (expo x - 52)"
    have q: "0 < q" by (simp add: q_def)
    have "x / q \<le> y / q" using assms(2) q by (simp add: divide_right_mono)
    then have "rhe (x / q) \<le> rhe (y / q)" by (rule rhe_mono)
    then have "(of_int (rhe (x / q)) :: real) * q \<le> of_int (rhe (y / q)) * q"
      using q by (intro mult_right_mono) simp_all
    then show ?thesis using x y True by (simp add: rne_def Let_def q_def)
  next
    case False
    with expo_mono [OF x assms(2)] have "expo x + 1 \<le> expo y" by simp
    then have "(2::real) powi (expo x + 1) \<le> 2 powi (expo y)" by (rule pow2_mono)
    with rne_binade [OF x] rne_binade [OF y] show ?thesis by linarith
  qed
qed

lemma rne_nonneg: "0 \<le> x \<Longrightarrow> 0 \<le> rne x"
  using rne_mono [of 0 x] by (simp add: rne_0)

lemma rne_pos_iff: "0 < rne x \<longleftrightarrow> 0 < x"
proof -
  have e: "\<bar>rne x - x\<bar> \<le> \<bar>x\<bar> / 2 ^ 53" by (rule rne_err)
  have h: "\<bar>x\<bar> / 2 ^ 53 < \<bar>x\<bar>" if "x \<noteq> 0" using that by simp
  show ?thesis
  proof (cases "x = 0")
    case True then show ?thesis by (simp add: rne_0)
  next
    case False
    from e h [OF False] have "\<bar>rne x - x\<bar> < \<bar>x\<bar>" by linarith
    then show ?thesis by (auto simp: abs_if split: if_splits)
  qed
qed

section \<open>Rounding errors\<close>














section \<open>Sorting\<close>

lemma mset_js_insort: "mset (js_insort cmp x ys) = add_mset x (mset ys)"
  by (induction ys) auto

lemma mset_js_sort: "mset (js_sort cmp xs) = mset xs"
  unfolding js_sort_def by (induction xs) (auto simp: mset_js_insort)

lemma length_js_sort: "length (js_sort cmp xs) = length xs"
  using mset_js_sort [of cmp xs] by (metis size_mset)

lemma set_js_sort: "set (js_sort cmp xs) = set xs"
  using mset_js_sort [of cmp xs] by (metis set_mset_mset)

lemma js_insort_insort_key:
  fixes key :: "'a \<Rightarrow> 'k::linorder"
  assumes "\<forall>y\<in>set ys. js_pos (cmp x y) \<longleftrightarrow> key y < key x"
  shows "js_insort cmp x ys = insort_key key x ys"
  using assms by (induction ys) auto

lemma js_sort_sort_key:
  fixes key :: "'a \<Rightarrow> 'k::linorder"
  assumes "\<forall>x\<in>set xs. \<forall>y\<in>set xs. js_pos (cmp x y) \<longleftrightarrow> key y < key x"
  shows "js_sort cmp xs = sort_key key xs"
  using assms
proof (induction xs)
  case Nil
  then show ?case by (simp add: js_sort_def)
next
  case (Cons x xs)
  then have ih: "js_sort cmp xs = sort_key key xs" by simp
  have "\<forall>y\<in>set (sort_key key xs). js_pos (cmp x y) \<longleftrightarrow> key y < key x"
    using Cons.prems by simp
  then have "js_insort cmp x (sort_key key xs) = insort_key key x (sort_key key xs)"
    by (rule js_insort_insort_key)
  then show ?case using ih by (simp add: js_sort_def)
qed

section \<open>Properties of the hexadecimal conversion\<close>

lemma hexVal_hexDigit: "d < 16 \<Longrightarrow> hexVal (hexDigit d) = Some d"
proof -
  assume "d < 16"
  then have "d \<in> set [0..<16]" by simp
  then show ?thesis
    unfolding hexDigit_def hexVal_def
    by (simp add: upt_rec Let_def) (elim disjE; simp)
qed

lemma toString16_byte:
  assumes "0 \<le> x" "x \<le> 255"
  shows "(let hex = toString16 (Num x) in if length hex = 1 then ''0'' @ hex else hex) = twoHex x"
proof (cases "nat x < 16")
  case True
  then have "nat x div 16 = 0" "nat x mod 16 = nat x" by simp_all
  moreover have "hexDigit 0 = CHR ''0''" by (simp add: hexDigit_def)
  ultimately show ?thesis using True assms
    by (simp add: toString16_def twoHex_def hexDigits.simps [of "nat x"])
next
  case False
  then have "nat x div 16 < 16" using assms by auto
  then show ?thesis using False assms
    by (simp add: toString16_def twoHex_def hexDigits.simps [of "nat x"] hexDigits.simps [of "nat x div 16"])
qed

lemma hexPair_twoHex:
  assumes "0 \<le> x" "x \<le> 255"
  shows "hexPair (hexDigit (nat x div 16)) (hexDigit (nat x mod 16)) = Some x"
proof -
  have "nat x div 16 < 16" "nat x mod 16 < 16" using assms by auto
  then show ?thesis using assms by (simp add: hexPair_def hexVal_hexDigit)
qed

text \<open>
  C8. For all whole numbers \<open>r\<close>, \<open>g\<close>, \<open>b\<close> between 0 and 255, \<open>rgbToHex\<close> gives the
  string made of \<open>#\<close> and the two lowercase hexadecimal digits of each channel,
  zero-padded, and reading that string back gives \<open>(r, g, b)\<close> again.
\<close>

theorem rgbToHex_roundtrip:
  assumes "0 \<le> r" "r \<le> 255" "0 \<le> g" "g \<le> 255" "0 \<le> b" "b \<le> 255"
  shows "hexToRgb (rgbToHex (Num r) (Num g) (Num b)) = Some (r, g, b)
       \<and> rgbToHex (Num r) (Num g) (Num b) = CHR ''#'' # twoHex r @ twoHex g @ twoHex b"
proof -
  have shape: "rgbToHex (Num r) (Num g) (Num b) = CHR ''#'' # twoHex r @ twoHex g @ twoHex b"
    using toString16_byte [of r] toString16_byte [of g] toString16_byte [of b] assms
    by (simp add: rgbToHex_def)
  have "hexToRgb (CHR ''#'' # twoHex r @ twoHex g @ twoHex b) = Some (r, g, b)"
    using assms by (simp add: hexToRgb_def twoHex_def hexPair_twoHex)
  with shape show ?thesis by simp
qed

theorem rgbToHex_roundtrip_witness:
  "hexToRgb (rgbToHex (Num 255) (Num 0) (Num 10)) = Some (255, 0, 10)
   \<and> rgbToHex (Num 255) (Num 0) (Num 10) = ''#ff000a''"
proof -
  have w: "hexToRgb (rgbToHex (Num 255) (Num 0) (Num 10)) = Some (255, 0, 10)
         \<and> rgbToHex (Num 255) (Num 0) (Num 10) = CHR ''#'' # twoHex 255 @ twoHex 0 @ twoHex 10"
    by (rule rgbToHex_roundtrip) simp_all
  have e: "CHR ''#'' # twoHex 255 @ twoHex 0 @ twoHex 10 = ''#ff000a''"
    by (simp add: twoHex_def hexDigit_def)
  show ?thesis
  proof (rule conjI)
    show "hexToRgb (rgbToHex (Num 255) (Num 0) (Num 10)) = Some (255, 0, 10)"
      using w by (rule conjunct1)
    show "rgbToHex (Num 255) (Num 0) (Num 10) = ''#ff000a''"
      using w [THEN conjunct2] e by (rule trans)
  qed
qed

section \<open>Properties of median cut\<close>

lemma sortedBucket_sort_key:
  "sortedBucket colors = sort_key (\<lambda>c. c ! nat (maxChannel colors)) colors"
  unfolding sortedBucket_def Let_def
  by (rule js_sort_sort_key) (simp add: js_pos_def)

lemma length_sortedBucket: "length (sortedBucket colors) = length colors"
  by (simp add: sortedBucket_sort_key)

lemma medianCut_length:
  "colors \<noteq> [] \<Longrightarrow> length (medianCut colors depth) = min (length colors) (2 ^ depth)"
proof (induction colors depth rule: medianCut.induct)
  case (1 colors depth)
  show ?case
  proof (cases "depth = 0 \<or> length colors \<le> 1")
    case True
    then have "medianCut colors depth = [averageColor colors]"
      by (simp add: medianCut.simps [of colors depth])
    moreover have "min (length colors) (2 ^ depth) = (1::nat)"
      using True "1.prems" by (cases colors) (auto simp: min_def)
    ultimately show ?thesis by simp
  next
    case False
    define sorted where "sorted = sortedBucket colors"
    define mid where "mid = length sorted div 2"
    have len: "length sorted = length colors" by (simp add: sorted_def length_sortedBucket)
    have n2: "2 \<le> length colors" and d: "0 < depth" using False by auto
    have l_ne: "take mid sorted \<noteq> []" and r_ne: "drop mid sorted \<noteq> []"
      using n2 len by (auto simp: mid_def)
    have ihl: "length (medianCut (take mid sorted) (depth - 1)) = min (length (take mid sorted)) (2 ^ (depth - 1))"
      using "1.IH"(1) [OF False sorted_def mid_def refl refl l_ne] .
    have ihr: "length (medianCut (drop mid sorted) (depth - 1)) = min (length (drop mid sorted)) (2 ^ (depth - 1))"
      using "1.IH"(2) [OF False sorted_def mid_def refl refl r_ne] .
    have unfold: "medianCut colors depth = medianCut (take mid sorted) (depth - 1) @ medianCut (drop mid sorted) (depth - 1)"
      using False by (simp add: medianCut.simps [of colors depth] Let_def sorted_def mid_def)
    obtain e where e: "depth = Suc e" using d by (cases depth) auto
    have "min (length colors div 2) ((2::nat) ^ e) + min (length colors - length colors div 2) (2 ^ e)
          = min (length colors) (2 * 2 ^ e)"
      by (simp add: min_def) linarith
    then show ?thesis
      using unfold ihl ihr len e by (simp add: mid_def min_absorb2)
  qed
qed

lemma medianCut_run_total: "medianCut_run colors depth = Some (medianCut colors depth)"
proof (induction colors depth rule: medianCut.induct)
  case (1 colors depth)
  show ?case
  proof (cases "depth = 0 \<or> length colors \<le> 1")
    case True
    then show ?thesis
      by (simp add: medianCut.simps [of colors depth] medianCut_run.simps [of colors depth])
  next
    case False
    have ihl: "medianCut_run (take (length (sortedBucket colors) div 2) (sortedBucket colors)) (depth - 1)
             = Some (medianCut (take (length (sortedBucket colors) div 2) (sortedBucket colors)) (depth - 1))"
      using "1.IH"(1) [OF False refl refl refl refl] .
    have ihr: "medianCut_run (drop (length (sortedBucket colors) div 2) (sortedBucket colors)) (depth - 1)
             = Some (medianCut (drop (length (sortedBucket colors) div 2) (sortedBucket colors)) (depth - 1))"
      using "1.IH"(2) [OF False refl refl refl refl] .
    show ?thesis
      using False ihl ihr
      by (simp add: medianCut.simps [of colors depth] medianCut_run.simps [of colors depth] Let_def)
  qed
qed

lemma medianCut_call_depth:
  "medianCut_call (colors, depth) (colors', depth') \<Longrightarrow> depth = Suc depth' \<and> length colors' < length colors"
  by (erule medianCut_call.cases) (auto simp: length_sortedBucket)

lemma indexOf_found:
  "v \<in> set xs \<Longrightarrow>
     0 \<le> indexOf xs v \<and> indexOf xs v < int (length xs) \<and> xs ! nat (indexOf xs v) = v
     \<and> (\<forall>j < nat (indexOf xs v). xs ! j \<noteq> v)"
proof (induction xs)
  case Nil
  then show ?case by simp
next
  case (Cons x xs)
  show ?case
  proof (cases "x = v")
    case True
    then show ?thesis by simp
  next
    case False
    with Cons.prems have "v \<in> set xs" by simp
    from Cons.IH [OF this] have ih: "0 \<le> indexOf xs v" "indexOf xs v < int (length xs)"
      "xs ! nat (indexOf xs v) = v" "\<forall>j < nat (indexOf xs v). xs ! j \<noteq> v" by simp_all
    have step: "indexOf (x # xs) v = indexOf xs v + 1"
      using False ih(1) by (simp add: Let_def)
    have idx: "nat (indexOf xs v + 1) = Suc (nat (indexOf xs v))" using ih(1) by simp
    have "\<forall>j < Suc (nat (indexOf xs v)). (x # xs) ! j \<noteq> v"
      using False ih(4) by (auto simp: nth_Cons split: nat.splits)
    then show ?thesis using ih step idx by simp
  qed
qed

lemma channelRanges_nth: "c < 3 \<Longrightarrow> channelRanges colors ! c = channelRange colors c"
proof -
  assume "c < 3"
  then have "c = 0 \<or> c = 1 \<or> c = 2" by auto
  then show ?thesis by (auto simp: channelRanges_def)
qed

lemma maxChannel_props:
  "0 \<le> maxChannel colors \<and> maxChannel colors < 3
   \<and> (\<forall>c < 3. channelRange colors c \<le> channelRange colors (nat (maxChannel colors)))
   \<and> (\<forall>c < nat (maxChannel colors). channelRange colors c < channelRange colors (nat (maxChannel colors)))"
proof -
  define ranges where "ranges = channelRanges colors"
  define m where "m = indexOf ranges (Max (set ranges))"
  have len: "length ranges = 3" by (simp add: ranges_def channelRanges_def)
  then have ne: "set ranges \<noteq> {}" by auto
  have "Max (set ranges) \<in> set ranges" using ne by (intro Max_in) simp_all
  from indexOf_found [OF this]
  have m0: "0 \<le> m" and m3: "m < 3" and at: "ranges ! nat m = Max (set ranges)"
    and first: "\<forall>j < nat m. ranges ! j \<noteq> Max (set ranges)"
    using len by (simp_all add: m_def)
  have ge: "ranges ! c \<le> Max (set ranges)" if "c < 3" for c
    using that len by (intro Max_ge) simp_all
  have nm3: "nat m < 3" using m0 m3 by simp
  have mc: "maxChannel colors = m" by (simp add: maxChannel_def m_def ranges_def Let_def)
  have a: "\<forall>c < 3. channelRange colors c \<le> channelRange colors (nat m)"
  proof (intro allI impI)
    fix c :: nat assume c: "c < 3"
    from ge [OF c] at have "ranges ! c \<le> ranges ! nat m" by simp
    then show "channelRange colors c \<le> channelRange colors (nat m)"
      using c nm3 by (simp add: ranges_def channelRanges_nth)
  qed
  have b: "\<forall>c < nat m. channelRange colors c < channelRange colors (nat m)"
  proof (intro allI impI)
    fix c :: nat assume c: "c < nat m"
    then have c3: "c < 3" using nm3 by simp
    from first c have "ranges ! c \<noteq> Max (set ranges)" by simp
    with ge [OF c3] at have "ranges ! c < ranges ! nat m" by simp
    then show "channelRange colors c < channelRange colors (nat m)"
      using c3 nm3 by (simp add: ranges_def channelRanges_nth)
  qed
  show ?thesis using m0 m3 a b mc by simp
qed

lemma medianCut_step:
  assumes "1 < length colors" "0 < depth"
  shows "medianCut colors depth =
           medianCut (take (length colors div 2) (sortedBucket colors)) (depth - 1)
         @ medianCut (drop (length colors div 2) (sortedBucket colors)) (depth - 1)"
  using assms by (simp add: medianCut.simps [of colors depth] Let_def length_sortedBucket)

lemma channelRange_bounds:
  assumes "x \<in> set colors" "y \<in> set colors"
  shows "x ! c - y ! c \<le> channelRange colors c"
proof -
  let ?vs = "map (\<lambda>color. color ! c) colors"
  have "x ! c \<in> set ?vs" "y ! c \<in> set ?vs" using assms by simp_all
  then have "x ! c \<le> Max (set ?vs)" "Min (set ?vs) \<le> y ! c" by simp_all
  then show ?thesis by (simp add: channelRange_def Let_def)
qed

lemma channelRange_attained:
  assumes "colors \<noteq> []"
  shows "\<exists>x\<in>set colors. \<exists>y\<in>set colors. x ! c - y ! c = channelRange colors c"
proof -
  let ?vs = "map (\<lambda>color. color ! c) colors"
  have ne: "set ?vs \<noteq> {}" using assms by simp
  have "Max (set ?vs) \<in> set ?vs" using ne by (intro Max_in) simp_all
  then obtain x where x: "x \<in> set colors" "x ! c = Max (set ?vs)" by auto
  have "Min (set ?vs) \<in> set ?vs" using ne by (intro Min_in) simp_all
  then obtain y where y: "y \<in> set colors" "y ! c = Min (set ?vs)" by auto
  have "x ! c - y ! c = channelRange colors c" using x(2) y(2) by (simp add: channelRange_def Let_def)
  with x(1) y(1) show ?thesis by blast
qed

text \<open>
  C3. For a bucket of more than one sample and a depth above zero: the split axis
  \<open>maxChannel\<close> is one of the three channels, no channel has a larger range (maximum
  minus minimum) and every channel before it has a strictly smaller one, so a tie goes
  to the lowest index; the range of the axis is the difference of two samples on the
  axis, no two samples differ by more on any channel, and on every channel before the
  axis they differ by less; the bucket is rearranged in increasing order of the axis;
  the left half holds \<open>length div 2\<close> samples, never more than the right half; and the
  result is the palette of the left half followed by that of the right half, each
  computed with the depth reduced by one.
\<close>

theorem medianCut_split:
  assumes "1 < length colors" and "0 < depth"
  shows "0 \<le> maxChannel colors \<and> maxChannel colors < 3
       \<and> (\<forall>c < 3. channelRange colors c \<le> channelRange colors (nat (maxChannel colors)))
       \<and> (\<forall>c < nat (maxChannel colors). channelRange colors c < channelRange colors (nat (maxChannel colors)))
       \<and> (\<exists>x\<in>set colors. \<exists>y\<in>set colors.
             x ! nat (maxChannel colors) - y ! nat (maxChannel colors)
               = channelRange colors (nat (maxChannel colors)))
       \<and> (\<forall>c < 3. \<forall>x\<in>set colors. \<forall>y\<in>set colors.
             x ! c - y ! c \<le> channelRange colors (nat (maxChannel colors)))
       \<and> (\<forall>c < nat (maxChannel colors). \<forall>x\<in>set colors. \<forall>y\<in>set colors.
             x ! c - y ! c < channelRange colors (nat (maxChannel colors)))
       \<and> sorted (map (\<lambda>color. color ! nat (maxChannel colors)) (sortedBucket colors))
       \<and> mset (sortedBucket colors) = mset colors
       \<and> length (take (length colors div 2) (sortedBucket colors)) = length colors div 2
       \<and> length (take (length colors div 2) (sortedBucket colors))
           \<le> length (drop (length colors div 2) (sortedBucket colors))
       \<and> medianCut colors depth =
           medianCut (take (length colors div 2) (sortedBucket colors)) (depth - 1)
         @ medianCut (drop (length colors div 2) (sortedBucket colors)) (depth - 1)"
proof -
  have ne: "colors \<noteq> []" using assms(1) by auto
  have mp: "0 \<le> maxChannel colors" "maxChannel colors < 3"
    "\<forall>c < 3. channelRange colors c \<le> channelRange colors (nat (maxChannel colors))"
    "\<forall>c < nat (maxChannel colors). channelRange colors c < channelRange colors (nat (maxChannel colors))"
    using maxChannel_props [of colors] by simp_all
  have att: "\<exists>x\<in>set colors. \<exists>y\<in>set colors.
             x ! nat (maxChannel colors) - y ! nat (maxChannel colors)
               = channelRange colors (nat (maxChannel colors))"
    using ne by (rule channelRange_attained)
  have le: "\<forall>c < 3. \<forall>x\<in>set colors. \<forall>y\<in>set colors.
             x ! c - y ! c \<le> channelRange colors (nat (maxChannel colors))"
  proof (intro allI impI ballI)
    fix c :: nat and x y assume c: "c < 3" and xy: "x \<in> set colors" "y \<in> set colors"
    have "x ! c - y ! c \<le> channelRange colors c" using xy by (rule channelRange_bounds)
    also have "\<dots> \<le> channelRange colors (nat (maxChannel colors))" using mp(3) c by simp
    finally show "x ! c - y ! c \<le> channelRange colors (nat (maxChannel colors))" .
  qed
  have lt: "\<forall>c < nat (maxChannel colors). \<forall>x\<in>set colors. \<forall>y\<in>set colors.
             x ! c - y ! c < channelRange colors (nat (maxChannel colors))"
  proof (intro allI impI ballI)
    fix c :: nat and x y
    assume c: "c < nat (maxChannel colors)" and xy: "x \<in> set colors" "y \<in> set colors"
    have "x ! c - y ! c \<le> channelRange colors c" using xy by (rule channelRange_bounds)
    also have "\<dots> < channelRange colors (nat (maxChannel colors))" using mp(4) c by simp
    finally show "x ! c - y ! c < channelRange colors (nat (maxChannel colors))" .
  qed
  have s: "sorted (map (\<lambda>color. color ! nat (maxChannel colors)) (sortedBucket colors))"
    by (simp add: sortedBucket_sort_key)
  have p: "mset (sortedBucket colors) = mset colors"
    by (simp add: sortedBucket_sort_key)
  have l: "length (take (length colors div 2) (sortedBucket colors)) = length colors div 2"
    by (simp add: length_sortedBucket)
  have r: "length (take (length colors div 2) (sortedBucket colors))
           \<le> length (drop (length colors div 2) (sortedBucket colors))"
    by (simp add: length_sortedBucket)
  from mp att le lt s p l r medianCut_step [OF assms] show ?thesis by (intro conjI)
qed

theorem medianCut_split_witness:
  "1 < length [[0, 9, 0], [0, 0, 9], [1, 5, 5 :: int]] \<and> (0::nat) < 1
   \<and> maxChannel [[0, 9, 0], [0, 0, 9], [1, 5, 5]] = 1
   \<and> channelRange [[0, 9, 0], [0, 0, 9], [1, 5, 5]] 1 = 9
   \<and> sortedBucket [[0, 9, 0], [0, 0, 9], [1, 5, 5]] = [[0, 0, 9], [1, 5, 5], [0, 9, 0]]
   \<and> medianCut [[0, 9, 0], [0, 0, 9], [1, 5, 5]] 1
       = medianCut [[0, 0, 9]] 0 @ medianCut [[1, 5, 5], [0, 9, 0]] 0"
proof -
  have h1: "1 < length [[0, 9, 0], [0, 0, 9], [1, 5, 5 :: int]]" by simp
  have h2: "(0::nat) < 1" by simp
  have m: "maxChannel [[0, 9, 0], [0, 0, 9], [1, 5, 5]] = 1" by code_simp
  have cr: "channelRange [[0, 9, 0], [0, 0, 9], [1, 5, 5]] 1 = 9" by code_simp
  have sb: "sortedBucket [[0, 9, 0], [0, 0, 9], [1, 5, 5]] = [[0, 0, 9], [1, 5, 5], [0, 9, 0]]"
    by code_simp
  from medianCut_split [OF h1 h2]
  have "medianCut [[0, 9, 0], [0, 0, 9], [1, 5, 5]] 1 =
          medianCut (take (length [[0, 9, 0], [0, 0, 9], [1, 5, 5 :: int]] div 2)
                      (sortedBucket [[0, 9, 0], [0, 0, 9], [1, 5, 5]])) (1 - 1)
        @ medianCut (drop (length [[0, 9, 0], [0, 0, 9], [1, 5, 5 :: int]] div 2)
                      (sortedBucket [[0, 9, 0], [0, 0, 9], [1, 5, 5]])) (1 - 1)"
    by (elim conjE)
  then have "medianCut [[0, 9, 0], [0, 0, 9], [1, 5, 5]] 1
       = medianCut [[0, 0, 9]] 0 @ medianCut [[1, 5, 5], [0, 9, 0]] 0"
    by (simp add: sb)
  with h1 h2 m cr sb show ?thesis by (intro conjI)
qed

text \<open>
  C1, as amended. For every non-empty sample sequence of \<open>n\<close> samples and every depth
  \<open>d\<close> given to the median-cut routine, the routine returns exactly \<open>min n (2 ^ d)\<close>
  representative colours: \<open>2 ^ d\<close> of them when there are at least \<open>2 ^ d\<close> samples, and
  one for each sample otherwise.
\<close>

theorem medianCut_palette_size:
  assumes "colors \<noteq> []"
  shows "length (medianCut colors depth) = min (length colors) (2 ^ depth)"
  using assms by (rule medianCut_length)

theorem medianCut_palette_size_witness:
  "[[0, 0, 0], [10, 0, 0], [20, 0, 0]] \<noteq> ([] :: int list list)
   \<and> length (medianCut [[0, 0, 0], [10, 0, 0], [20, 0, 0]] 1) = 2
   \<and> length (medianCut [[0, 0, 0], [10, 0, 0], [20, 0, 0]] 8) = 3"
proof -
  have h: "[[0, 0, 0], [10, 0, 0], [20, 0, 0]] \<noteq> ([] :: int list list)" by simp
  show ?thesis
    using h medianCut_palette_size [OF h, of 1] medianCut_palette_size [OF h, of 8] by simp
qed

text \<open>
  C10. For every sample list and every natural-number depth the recursion returns a
  palette; each call that an activation makes has a depth that is smaller by exactly
  one; and an activation with depth \<open>0\<close> or with at most one sample makes no call and
  returns the average colour of its bucket.
\<close>

theorem medianCut_terminates:
  "(\<exists>palette. medianCut_run colors depth = Some palette)
   \<and> (\<forall>colors' depth'. medianCut_call (colors, depth) (colors', depth') \<longrightarrow> depth = Suc depth')
   \<and> (depth = 0 \<or> length colors \<le> 1 \<longrightarrow>
        medianCut_run colors depth = Some [averageColor colors]
        \<and> (\<forall>callee. \<not> medianCut_call (colors, depth) callee))"
proof -
  have a: "\<exists>palette. medianCut_run colors depth = Some palette"
    by (simp add: medianCut_run_total)
  have b: "\<forall>colors' depth'. medianCut_call (colors, depth) (colors', depth') \<longrightarrow> depth = Suc depth'"
    using medianCut_call_depth by blast
  have c: "depth = 0 \<or> length colors \<le> 1 \<longrightarrow>
        medianCut_run colors depth = Some [averageColor colors]
        \<and> (\<forall>callee. \<not> medianCut_call (colors, depth) callee)"
  proof
    assume base: "depth = 0 \<or> length colors \<le> 1"
    then have "medianCut_run colors depth = Some [averageColor colors]"
      by (simp add: medianCut_run.simps [of colors depth])
    moreover have "\<not> medianCut_call (colors, depth) callee" for callee
      using base by (auto elim: medianCut_call.cases)
    ultimately show "medianCut_run colors depth = Some [averageColor colors]
        \<and> (\<forall>callee. \<not> medianCut_call (colors, depth) callee)" by blast
  qed
  from a b c show ?thesis by blast
qed

theorem medianCut_terminates_witness:
  "medianCut_call ([[0, 0, 0], [10, 0, 0]], 1) ([[0, 0, 0]], 0)
   \<and> (1::nat) = Suc 0
   \<and> (\<exists>palette. medianCut_run [[0, 0, 0], [10, 0, 0]] 1 = Some palette)
   \<and> length [[0, 0, 0 :: int]] \<le> 1
   \<and> medianCut_run [[0, 0, 0]] 0 = Some [averageColor [[0, 0, 0]]]"
proof -
  have sb: "sortedBucket [[0, 0, 0], [10, 0, 0]] = [[0, 0, 0], [10, 0, 0]]" by code_simp
  have "medianCut_call ([[0, 0, 0], [10, 0, 0]], 1)
          (take (length (sortedBucket [[0, 0, 0], [10, 0, 0]]) div 2) (sortedBucket [[0, 0, 0], [10, 0, 0]]), 1 - 1)"
    by (rule call_left) simp
  then have call: "medianCut_call ([[0, 0, 0], [10, 0, 0]], 1) ([[0, 0, 0]], 0)"
    by (simp add: sb)
  have base: "length [[0, 0, 0 :: int]] \<le> 1" by simp
  from medianCut_terminates [of "[[0, 0, 0], [10, 0, 0]]" 1]
  have run: "\<exists>palette. medianCut_run [[0, 0, 0], [10, 0, 0]] 1 = Some palette"
    and dec: "(1::nat) = Suc 0"
    using call by blast+
  from medianCut_terminates [of "[[0, 0, 0]]" 0] base
  have "medianCut_run [[0, 0, 0]] 0 = Some [averageColor [[0, 0, 0]]]" by blast
  with call dec run base show ?thesis by blast
qed

section \<open>Properties of the sampler\<close>

lemma mod40_gap: "i mod 40 = 0 \<Longrightarrow> i < j \<Longrightarrow> j < i + 40 \<Longrightarrow> j mod 40 \<noteq> (0::nat)"
  by presburger

lemma filter_mod40_gap:
  assumes "i mod 40 = 0" "m \<le> i + 40"
  shows "filter (\<lambda>j. j mod 40 = 0) [Suc i..<m] = []"
proof -
  have "j mod 40 \<noteq> 0" if "j \<in> set [Suc i..<m]" for j
  proof -
    from that have "i < j" "j < i + 40" using assms(2) by auto
    with assms(1) show ?thesis by (rule mod40_gap)
  qed
  then show ?thesis by (simp only: filter_empty_conv) blast
qed

lemma filter_mod40_skip:
  assumes "i mod 40 = 0"
  shows "filter (\<lambda>j. j mod 40 = 0) [Suc i..<n] = filter (\<lambda>j. j mod 40 = 0) [i + 40..<n]"
proof (cases "n \<le> i + 40")
  case True
  then show ?thesis using filter_mod40_gap [OF assms True] by simp
next
  case False
  then have le: "Suc i \<le> i + 40" "i + 40 \<le> n" by simp_all
  have "[Suc i..<n] = [Suc i..<i + 40] @ [i + 40..<n]"
    using le by (metis le_Suc_ex upt_add_eq_append)
  moreover have "filter (\<lambda>j. j mod 40 = 0) [Suc i..<i + 40] = []"
    using filter_mod40_gap [OF assms order_refl] .
  ultimately show ?thesis by simp
qed

lemma samplePixels_from_spec:
  "i mod 40 = 0 \<Longrightarrow>
   samplePixels_from pixels i acc =
     acc @ map (\<lambda>i. [chanAt pixels i, chanAt pixels (i + 1), chanAt pixels (i + 2)])
             (filter (\<lambda>i. 128 \<le> chanAt pixels (i + 3))
                (filter (\<lambda>j. j mod 40 = 0) [i..<length pixels]))"
proof (induction pixels i acc rule: samplePixels_from.induct)
  case (1 pixels i acc)
  show ?case
  proof (cases "i < length pixels")
    case False
    then show ?thesis by (simp add: samplePixels_from.simps [of pixels i acc])
  next
    case True
    have next40: "(i + 40) mod 40 = 0" using "1.prems" by simp
    have lst: "filter (\<lambda>j. j mod 40 = 0) [i..<length pixels]
             = i # filter (\<lambda>j. j mod 40 = 0) [i + 40..<length pixels]"
      using True "1.prems" filter_mod40_skip [of i "length pixels"]
      by (simp add: upt_conv_Cons)
    show ?thesis
    proof (cases "chanAt pixels (i + 3) < 128")
      case skip: True
      have "samplePixels_from pixels i acc = samplePixels_from pixels (i + 40) acc"
        using True skip by (simp add: samplePixels_from.simps [of pixels i acc] Let_def)
      also have "\<dots> = acc @ map (\<lambda>i. [chanAt pixels i, chanAt pixels (i + 1), chanAt pixels (i + 2)])
             (filter (\<lambda>i. 128 \<le> chanAt pixels (i + 3))
                (filter (\<lambda>j. j mod 40 = 0) [i + 40..<length pixels]))"
        using "1.IH"(1) [OF True refl refl refl refl skip next40] .
      finally show ?thesis using skip lst by simp
    next
      case keep: False
      have "samplePixels_from pixels i acc
          = samplePixels_from pixels (i + 40) (acc @ [[chanAt pixels i, chanAt pixels (i + 1), chanAt pixels (i + 2)]])"
        using True keep by (simp add: samplePixels_from.simps [of pixels i acc] Let_def)
      also have "\<dots> = (acc @ [[chanAt pixels i, chanAt pixels (i + 1), chanAt pixels (i + 2)]])
           @ map (\<lambda>i. [chanAt pixels i, chanAt pixels (i + 1), chanAt pixels (i + 2)])
             (filter (\<lambda>i. 128 \<le> chanAt pixels (i + 3))
                (filter (\<lambda>j. j mod 40 = 0) [i + 40..<length pixels]))"
        using "1.IH"(2) [OF True refl refl refl refl keep next40] .
      finally show ?thesis using keep lst by simp
    qed
  qed
qed

lemma samplePixels_eq_spec: "samplePixels pixels = samplePixels_spec pixels"
  using samplePixels_from_spec [of 0 pixels "[]"]
  by (simp add: samplePixels_def samplePixels_spec_def sampleOffsets_def)

lemma offset_in_range:
  assumes "length pixels = 4 * W * H" "i \<in> set (sampleOffsets pixels)"
  shows "i + 3 < length pixels"
proof -
  from assms(2) have "i mod 40 = 0" "i < length pixels" by (auto simp: sampleOffsets_def)
  moreover have "length pixels mod 4 = 0" using assms(1) by (simp add: mult.assoc)
  ultimately show ?thesis by presburger
qed

text \<open>
  C4. For every RGBA buffer of length \<open>4 * W * H\<close> the sampler returns, in buffer order,
  the colour triples found at the offsets that are multiples of 40 and whose alpha
  byte is at least 128, and nothing else; each of these offsets has its four bytes
  inside the buffer; and the empty buffer gives no sample.
\<close>

theorem samplePixels_every_tenth:
  assumes "length pixels = 4 * W * H"
  shows "samplePixels pixels = samplePixels_spec pixels
       \<and> (\<forall>i \<in> set (sampleOffsets pixels). i + 3 < length pixels)
       \<and> (pixels = [] \<longrightarrow> samplePixels pixels = [])"
  using samplePixels_eq_spec [of pixels] offset_in_range [OF assms]
  by (auto simp: samplePixels_spec_def sampleOffsets_def)

theorem samplePixels_every_tenth_witness:
  "length elevenPixelRow = 4 * 11 * 1
   \<and> samplePixels elevenPixelRow = samplePixels_spec elevenPixelRow
   \<and> samplePixels elevenPixelRow = [[0, 0, 0], [10, 0, 0]]
   \<and> sampleOffsets elevenPixelRow = [0, 40]"
proof -
  have h: "length elevenPixelRow = 4 * 11 * 1" by (simp add: elevenPixelRow_def)
  have "samplePixels elevenPixelRow = samplePixels_spec elevenPixelRow"
    using samplePixels_every_tenth [OF h] by (rule conjunct1)
  moreover have "samplePixels elevenPixelRow = [[0, 0, 0], [10, 0, 0]]" by code_simp
  moreover have "sampleOffsets elevenPixelRow = [0, 40]" by code_simp
  ultimately show ?thesis using h by blast
qed

section \<open>Properties of the palette\<close>

lemma rounded_sqrt_below_50: "rne (sqrt (real_of_int s)) < 50 \<longleftrightarrow> s < 2500"
proof (cases "s < 2500")
  case True
  have "rne (sqrt (real_of_int s)) < 50"
  proof (cases "s \<le> 0")
    case True
    then have "sqrt (real_of_int s) \<le> 0" by simp
    moreover have "0 < rne (sqrt (real_of_int s)) \<longleftrightarrow> 0 < sqrt (real_of_int s)"
      by (rule rne_pos_iff)
    ultimately show ?thesis by linarith
  next
    case False
    then have nn: "0 \<le> sqrt (real_of_int s)" by simp
    have "real_of_int s \<le> 2499" using True by simp
    also have "\<dots> \<le> (4999 / 100)\<^sup>2" by (simp add: power2_eq_square)
    finally have "sqrt (real_of_int s) \<le> sqrt ((4999 / 100)\<^sup>2)" by (simp only: real_sqrt_le_iff)
    then have le: "sqrt (real_of_int s) \<le> 4999 / 100" by simp
    have "\<bar>rne (sqrt (real_of_int s)) - sqrt (real_of_int s)\<bar> \<le> \<bar>sqrt (real_of_int s)\<bar> / 2 ^ 53"
      by (rule rne_err)
    moreover have "\<bar>sqrt (real_of_int s)\<bar> / 2 ^ 53 \<le> 1 / 1000"
      using le nn by simp
    ultimately show ?thesis using le by linarith
  qed
  then show ?thesis using True by simp
next
  case False
  then have "2500 \<le> real_of_int s" by simp
  then have "sqrt (50\<^sup>2) \<le> sqrt (real_of_int s)" by (simp only: real_sqrt_le_iff) simp
  then have "50 \<le> sqrt (real_of_int s)" by simp
  then have "rne 50 \<le> rne (sqrt (real_of_int s))" by (intro rne_mono) simp_all
  moreover have "rne (of_int 50) = of_int 50" by (rule rne_of_int) simp_all
  ultimately have "50 \<le> rne (sqrt (real_of_int s))" by simp
  then show ?thesis using False by simp
qed

lemma withinThreshold_code [code]:
  "withinThreshold pixel color =
     (case (color ! 0, color ! 1, color ! 2) of
        (Num c0, Num c1, Num c2) \<Rightarrow>
          (pixel ! 0 - c0)\<^sup>2 + (pixel ! 1 - c1)\<^sup>2 + (pixel ! 2 - c2)\<^sup>2 < 2500
      | _ \<Rightarrow> False)"
  by (simp add: withinThreshold_def getColorDistance_def js_lt_def rounded_sqrt_below_50
        del: of_int_add of_int_diff of_int_power split: jsnum.splits)

lemma colorCount_foldl:
  "foldl (\<lambda>cnt pixel. if withinThreshold pixel color then cnt + 1 else cnt) n xs \<le> n + length xs"
proof (induction xs arbitrary: n)
  case Nil
  then show ?case by simp
next
  case (Cons x xs)
  show ?case using Cons.IH [of "n + 1"] Cons.IH [of n] by simp
qed

lemma colorCount_le: "colorCount sampledColors color \<le> length sampledColors"
  using colorCount_foldl [of color 0 sampledColors] by (simp add: colorCount_def)

lemma length_medianCut_array: "length (medianCut_array colors depth) = length colors"
  by (simp add: medianCut_array_def length_sortedBucket)

lemma palette_entries:
  "dominantColors (extractColorPalette pixels numColors) =
     js_sort (\<lambda>a b. js_sub (percentage b) (percentage a))
       (map (\<lambda>color. colorInfo (length (samplePixels pixels)) color
                (colorCount (medianCut_array (samplePixels pixels) numColors) color))
            (medianCut (samplePixels pixels) numColors))"
  by (simp add: extractColorPalette_def Let_def zip_map2 length_medianCut_array
        zip_same_conv_map comp_def)

lemma rne_100: "rne 100 = 100"
  using rne_of_int [of 100] by simp

lemma rne_1: "rne 1 = 1"
  using rne_of_int [of 1] by simp

lemma toFixed2_bounds:
  assumes "0 \<le> x" "x \<le> 100"
  shows "0 \<le> toFixed2 x \<and> toFixed2 x \<le> 100"
proof -
  define h where "h = real_of_int \<lfloor>x * 100 + 1 / 2\<rfloor> / 100"
  have "0 \<le> \<lfloor>x * 100 + 1 / 2\<rfloor>" using assms(1) by simp
  then have h0: "0 \<le> h" by (simp add: h_def)
  have "\<lfloor>x * 100 + 1 / 2\<rfloor> \<le> 10000"
  proof -
    have "x * 100 + 1 / 2 < 10001" using assms(2) by simp
    then have "\<lfloor>x * 100 + 1 / 2\<rfloor> < 10001" by (simp add: floor_less_iff)
    then show ?thesis by simp
  qed
  then have h100: "h \<le> 100" by (simp add: h_def)
  have t: "toFixed2 x = rne h" using assms(1) by (simp add: toFixed2_def h_def)
  have "0 \<le> rne h" using h0 by (rule rne_nonneg)
  moreover have "rne h \<le> rne 100" using h0 h100 by (rule rne_mono)
  ultimately show ?thesis by (simp add: t rne_100)
qed

lemma colorInfo_percentage:
  assumes "0 < tot" "cnt \<le> tot"
  shows "\<exists>p. percentage (colorInfo tot color cnt) = Num p \<and> 0 \<le> p \<and> p \<le> 100"
proof -
  define q where "q = rne (real cnt / real tot)"
  have "0 \<le> real cnt / real tot" by simp
  moreover have "real cnt / real tot \<le> 1" using assms by simp
  ultimately have q01: "0 \<le> q" "q \<le> 1"
    using rne_nonneg [of "real cnt / real tot"] rne_mono [of "real cnt / real tot" 1]
    by (simp_all add: q_def rne_1)
  have "0 \<le> q * 100" "q * 100 \<le> 100" using q01 by simp_all
  then have "0 \<le> rne (q * 100)" "rne (q * 100) \<le> 100"
    using rne_nonneg [of "q * 100"] rne_mono [of "q * 100" 100] by (simp_all add: rne_100)
  then have "0 \<le> toFixed2 (rne (q * 100)) \<and> toFixed2 (rne (q * 100)) \<le> 100"
    by (rule toFixed2_bounds)
  then show ?thesis using assms(1) by (simp add: colorInfo_def js_div_def q_def)
qed

lemma palette_entry_percentage:
  assumes "samplePixels pixels \<noteq> []"
    and "e \<in> set (dominantColors (extractColorPalette pixels numColors))"
  shows "\<exists>p. percentage e = Num p \<and> 0 \<le> p \<and> p \<le> 100"
proof -
  from assms(2) obtain color where
    e: "e = colorInfo (length (samplePixels pixels)) color
              (colorCount (medianCut_array (samplePixels pixels) numColors) color)"
    by (auto simp: palette_entries set_js_sort)
  have "0 < length (samplePixels pixels)" using assms(1) by simp
  moreover have "colorCount (medianCut_array (samplePixels pixels) numColors) color \<le> length (samplePixels pixels)"
    using colorCount_le [of "medianCut_array (samplePixels pixels) numColors" color]
    by (simp add: length_medianCut_array)
  ultimately show ?thesis unfolding e by (rule colorInfo_percentage)
qed

lemma palette_length:
  "length (dominantColors (extractColorPalette pixels numColors)) = length (medianCut (samplePixels pixels) numColors)"
  by (simp add: palette_entries length_js_sort)

lemma percentage_sum:
  assumes "\<forall>e \<in> set es. \<exists>p. percentage e = Num p \<and> 0 \<le> p \<and> p \<le> 100"
  shows "\<exists>s. foldl js_add (Num a) (map percentage es) = Num s \<and> a \<le> s \<and> s \<le> a + 100 * real (length es)"
  using assms
proof (induction es arbitrary: a)
  case Nil
  then show ?case by simp
next
  case (Cons e es)
  then obtain p where p: "percentage e = Num p" "0 \<le> p" "p \<le> 100" by auto
  from Cons.IH [of "a + p"] Cons.prems obtain s where
    s: "foldl js_add (Num (a + p)) (map percentage es) = Num s" "a + p \<le> s" "s \<le> a + p + 100 * real (length es)"
    by auto
  have "foldl js_add (Num a) (map percentage (e # es)) = Num s"
    using p(1) s(1) by (simp add: js_add_def)
  moreover have "a \<le> s" using s(2) p(2) by simp
  moreover have "s \<le> a + 100 * real (length (e # es))" using s(3) p(3) by simp
  ultimately show ?case by blast
qed

lemma palette_sorted_nonempty:
  assumes "samplePixels pixels \<noteq> []"
  shows "sorted (map (\<lambda>e. - percentValue e) (dominantColors (extractColorPalette pixels numColors)))"
proof -
  define entries where "entries = map (\<lambda>color. colorInfo (length (samplePixels pixels)) color
                (colorCount (medianCut_array (samplePixels pixels) numColors) color))
            (medianCut (samplePixels pixels) numColors)"
  have sorted_eq: "dominantColors (extractColorPalette pixels numColors)
      = js_sort (\<lambda>a b. js_sub (percentage b) (percentage a)) entries"
    by (simp add: palette_entries entries_def)
  have num: "\<exists>p. percentage e = Num p" if "e \<in> set entries" for e
  proof -
    from that have "e \<in> set (dominantColors (extractColorPalette pixels numColors))"
      by (simp add: sorted_eq set_js_sort)
    from palette_entry_percentage [OF assms this] show ?thesis by blast
  qed
  have "\<forall>x\<in>set entries. \<forall>y\<in>set entries.
          js_pos (js_sub (percentage y) (percentage x)) \<longleftrightarrow> - percentValue y < - percentValue x"
  proof (intro ballI)
    fix x y assume "x \<in> set entries" "y \<in> set entries"
    then obtain p q where "percentage x = Num p" "percentage y = Num q" using num by blast
    then show "js_pos (js_sub (percentage y) (percentage x)) \<longleftrightarrow> - percentValue y < - percentValue x"
      by (simp add: js_pos_def js_sub_def percentValue_def rne_pos_iff)
  qed
  then have "js_sort (\<lambda>a b. js_sub (percentage b) (percentage a)) entries
           = sort_key (\<lambda>e. - percentValue e) entries"
    by (rule js_sort_sort_key)
  then show ?thesis by (simp add: sorted_eq)
qed

text \<open>
  C6. For every pixel buffer and every \<open>numColors\<close>, the palette that
  \<open>extractColorPalette\<close> returns is in descending order of percentage: each entry's
  percentage is at least that of the entry after it.
\<close>

theorem palette_sorted_descending:
  "\<forall>i. Suc i < length (dominantColors (extractColorPalette pixels numColors)) \<longrightarrow>
        js_ge (percentage (dominantColors (extractColorPalette pixels numColors) ! i))
              (percentage (dominantColors (extractColorPalette pixels numColors) ! Suc i))"
proof (cases "samplePixels pixels = []")
  case True
  then have "medianCut (samplePixels pixels) numColors = [averageColor []]"
    by (simp add: medianCut.simps [of "[]" numColors])
  then have "length (dominantColors (extractColorPalette pixels numColors)) = 1"
    by (simp add: palette_length)
  then show ?thesis by simp
next
  case False
  let ?es = "dominantColors (extractColorPalette pixels numColors)"
  show ?thesis
  proof (intro allI impI)
    fix i assume i: "Suc i < length ?es"
    have "sorted (map (\<lambda>e. - percentValue e) ?es)" using False by (rule palette_sorted_nonempty)
    then have "map (\<lambda>e. - percentValue e) ?es ! i \<le> map (\<lambda>e. - percentValue e) ?es ! Suc i"
      using i by (intro sorted_nth_mono) simp_all
    then have le: "percentValue (?es ! Suc i) \<le> percentValue (?es ! i)" using i by simp
    have "?es ! i \<in> set ?es" "?es ! Suc i \<in> set ?es" using i by simp_all
    then obtain p q where "percentage (?es ! i) = Num p" "percentage (?es ! Suc i) = Num q"
      using palette_entry_percentage [OF False] by blast
    then show "js_ge (percentage (?es ! i)) (percentage (?es ! Suc i))"
      using le by (simp add: js_ge_def percentValue_def)
  qed
qed

theorem palette_sorted_descending_witness:
  "Suc 0 < length (dominantColors (extractColorPalette elevenPixelRow 8))
   \<and> js_ge (percentage (dominantColors (extractColorPalette elevenPixelRow 8) ! 0))
            (percentage (dominantColors (extractColorPalette elevenPixelRow 8) ! Suc 0))"
proof -
  have "map percentage (dominantColors (extractColorPalette elevenPixelRow 8)) = [Num 100, Num 100]"
    by code_simp
  then have "length (map percentage (dominantColors (extractColorPalette elevenPixelRow 8))) = 2"
    by simp
  then have h: "Suc 0 < length (dominantColors (extractColorPalette elevenPixelRow 8))"
    by simp
  with palette_sorted_descending [of elevenPixelRow 8] show ?thesis by blast
qed

text \<open>
  C7. For every buffer that yields at least one sample, each palette entry's
  percentage is a number between 0 and 100, because the number of samples counted for
  a colour (those at a distance strictly below 50) never exceeds the number of
  samples; the percentages add up to a number between 0 and 100 times the number of
  entries, and nothing ties that sum to 100.
\<close>

theorem palette_percentages:
  assumes "samplePixels pixels \<noteq> []"
  shows "(\<forall>e \<in> set (dominantColors (extractColorPalette pixels numColors)).
            \<exists>p. percentage e = Num p \<and> 0 \<le> p \<and> p \<le> 100)
       \<and> (\<forall>color. colorCount (medianCut_array (samplePixels pixels) numColors) color
                     \<le> length (samplePixels pixels))
       \<and> (\<exists>s. foldl js_add (Num 0) (map percentage (dominantColors (extractColorPalette pixels numColors))) = Num s
              \<and> 0 \<le> s
              \<and> s \<le> 100 * real (length (dominantColors (extractColorPalette pixels numColors))))"
proof -
  have a: "\<forall>e \<in> set (dominantColors (extractColorPalette pixels numColors)).
            \<exists>p. percentage e = Num p \<and> 0 \<le> p \<and> p \<le> 100"
    using palette_entry_percentage [OF assms] by blast
  have b: "\<forall>color. colorCount (medianCut_array (samplePixels pixels) numColors) color
                     \<le> length (samplePixels pixels)"
    using colorCount_le [of "medianCut_array (samplePixels pixels) numColors"]
    by (simp add: length_medianCut_array)
  from percentage_sum [OF a, of 0] have c: "\<exists>s. foldl js_add (Num 0) (map percentage (dominantColors (extractColorPalette pixels numColors))) = Num s
              \<and> 0 \<le> s
              \<and> s \<le> 100 * real (length (dominantColors (extractColorPalette pixels numColors)))"
    by simp
  from a b c show ?thesis by blast
qed

theorem palette_percentages_witness:
  "samplePixels elevenPixelRow = [[0, 0, 0], [10, 0, 0]]
   \<and> map percentage (dominantColors (extractColorPalette elevenPixelRow 8)) = [Num 100, Num 100]
   \<and> colorCount (medianCut_array (samplePixels elevenPixelRow) 8) [Num 0, Num 0, Num 0]
         \<le> length (samplePixels elevenPixelRow)
   \<and> (\<exists>s. foldl js_add (Num 0) (map percentage (dominantColors (extractColorPalette elevenPixelRow 8))) = Num s
          \<and> 0 \<le> s
          \<and> s \<le> 100 * real (length (dominantColors (extractColorPalette elevenPixelRow 8))))"
proof -
  have s: "samplePixels elevenPixelRow = [[0, 0, 0], [10, 0, 0]]" by code_simp
  then have h: "samplePixels elevenPixelRow \<noteq> []" by simp
  have p: "map percentage (dominantColors (extractColorPalette elevenPixelRow 8)) = [Num 100, Num 100]"
    by code_simp
  from palette_percentages [OF h, of 8] s p show ?thesis by blast
qed

lemma palette_sum_may_exceed_100:
  "foldl js_add (Num 0) (map percentage (dominantColors (extractColorPalette elevenPixelRow 8))) = Num 200"
proof -
  have "map percentage (dominantColors (extractColorPalette elevenPixelRow 8)) = [Num 100, Num 100]"
    by code_simp
  then show ?thesis by (simp add: js_add_def)
qed

text \<open>
  \<open>extractColorPalette\<close> hands \<open>numColors\<close> to \<open>medianCut\<close> as its depth, so the
  number of entries is bounded by \<open>2 ^ numColors\<close> and by the number of samples.
\<close>

lemma palette_size_of_samples:
  assumes "samplePixels pixels \<noteq> []"
  shows "length (dominantColors (extractColorPalette pixels numColors))
       = min (length (samplePixels pixels)) (2 ^ numColors)"
  using assms by (simp add: palette_length medianCut_length)

text \<open>
  C1, as stated, fails: the image of a single opaque red pixel gives one sample, and with
  the default \<open>numColors = 8\<close> the palette has one entry, not eight.
\<close>

theorem palette_size_counterexample:
  "samplePixels [255, 0, 0, 255] \<noteq> []
   \<and> length (dominantColors (extractColorPalette [255, 0, 0, 255] 8)) \<noteq> 8"
proof -
  have s: "samplePixels [255, 0, 0, 255] = [[255, 0, 0]]" by code_simp
  then have ne: "samplePixels [255, 0, 0, 255] \<noteq> []" by simp
  have "length (dominantColors (extractColorPalette [255, 0, 0, 255] 8)) = 1"
    using palette_size_of_samples [OF ne, of 8] by (simp add: s)
  with ne show ?thesis by simp
qed

section \<open>The image without a visible pixel\<close>

lemma statTotals_transparent: "statTotals [0, 0, 0, 0] 0 t = t"
  by (simp add: statTotals.simps [of _ 0] statTotals.simps [of _ 4] chanAt_def)

lemma varianceLoop_transparent: "varianceLoop [0, 0, 0, 0] NaN 0 (Num 0) = Num 0"
  by (simp add: varianceLoop.simps [of _ _ 0] varianceLoop.simps [of _ _ 4] chanAt_def)

text \<open>
  C2. The specification asks that an image without an eligible pixel gives a defined
  ``no data'' value and no \<open>NaN\<close>. On the 1 by 1 image whose only pixel is fully
  transparent, every statistic that the code returns is \<open>NaN\<close>, and the palette is a
  single entry with \<open>NaN\<close> channels, a \<open>NaN\<close> percentage and the text \<open>#NaNNaNNaN\<close>
  for its colour.
\<close>

theorem transparent_image_gives_NaN:
  "samplePixels [0, 0, 0, 0] = []
   \<and> calculateImageStats [0, 0, 0, 0] =
       \<lparr> averageBrightness = NaN, averageContrast = NaN,
         colorDistribution = \<lparr> red = NaN, green = NaN, blue = NaN \<rparr> \<rparr>
   \<and> dominantColors (extractColorPalette [0, 0, 0, 0] 8) =
       [\<lparr> hex = ''#NaNNaNNaN'', rgb = (NaN, NaN, NaN), percentage = NaN \<rparr>]"
proof -
  have a: "samplePixels [0, 0, 0, 0] = []" by code_simp
  have b: "calculateImageStats [0, 0, 0, 0] =
       \<lparr> averageBrightness = NaN, averageContrast = NaN,
         colorDistribution = \<lparr> red = NaN, green = NaN, blue = NaN \<rparr> \<rparr>"
    by (simp add: calculateImageStats_def statTotals_transparent varianceLoop_transparent
          js_div_def js_quot_def)
  have c: "dominantColors (extractColorPalette [0, 0, 0, 0] 8) =
       [\<lparr> hex = ''#NaNNaNNaN'', rgb = (NaN, NaN, NaN), percentage = NaN \<rparr>]"
    by code_simp
  from a b c show ?thesis by blast
qed

text \<open>
  The same happens for every buffer without an eligible pixel, whatever its size.
\<close>

lemma statTotals_no_eligible:
  "(\<forall>k. i + 4 * k < length pixels \<longrightarrow> chanAt pixels (i + 4 * k + 3) < 128) \<Longrightarrow>
     statTotals pixels i t = t"
proof (induction pixels i t rule: statTotals.induct)
  case (1 pixels i t)
  show ?case
  proof (cases "i < length pixels")
    case False
    then show ?thesis by (simp add: statTotals.simps [of pixels i t])
  next
    case True
    have a: "chanAt pixels (i + 3) < 128" using "1.prems" [rule_format, of 0] True by simp
    have "\<forall>k. i + 4 + 4 * k < length pixels \<longrightarrow> chanAt pixels (i + 4 + 4 * k + 3) < 128"
    proof (intro allI impI)
      fix k assume "i + 4 + 4 * k < length pixels"
      then show "chanAt pixels (i + 4 + 4 * k + 3) < 128"
        using "1.prems" [rule_format, of "Suc k"] by (simp add: add.assoc add.left_commute)
    qed
    from "1.IH"(1) [OF True refl refl refl refl a this]
    show ?thesis using True a by (simp add: statTotals.simps [of pixels i t] Let_def)
  qed
qed

lemma varianceLoop_no_eligible:
  "(\<forall>k. i + 4 * k < length pixels \<longrightarrow> chanAt pixels (i + 4 * k + 3) < 128) \<Longrightarrow>
     varianceLoop pixels avg i v = v"
proof (induction pixels avg i v rule: varianceLoop.induct)
  case (1 pixels avg i v)
  show ?case
  proof (cases "i < length pixels")
    case False
    then show ?thesis by (simp add: varianceLoop.simps [of pixels avg i v])
  next
    case True
    have a: "chanAt pixels (i + 3) < 128" using "1.prems" [rule_format, of 0] True by simp
    have "\<forall>k. i + 4 + 4 * k < length pixels \<longrightarrow> chanAt pixels (i + 4 + 4 * k + 3) < 128"
    proof (intro allI impI)
      fix k assume "i + 4 + 4 * k < length pixels"
      then show "chanAt pixels (i + 4 + 4 * k + 3) < 128"
        using "1.prems" [rule_format, of "Suc k"] by (simp add: add.assoc add.left_commute)
    qed
    from "1.IH"(1) [OF True refl refl refl refl a this]
    show ?thesis using True a by (simp add: varianceLoop.simps [of pixels avg i v] Let_def)
  qed
qed

lemma stats_without_eligible_pixel:
  assumes "\<forall>k. 4 * k < length pixels \<longrightarrow> chanAt pixels (4 * k + 3) < 128"
  shows "calculateImageStats pixels =
       \<lparr> averageBrightness = NaN, averageContrast = NaN,
         colorDistribution = \<lparr> red = NaN, green = NaN, blue = NaN \<rparr> \<rparr>"
proof -
  have h: "\<forall>k. 0 + 4 * k < length pixels \<longrightarrow> chanAt pixels (0 + 4 * k + 3) < 128"
    using assms by simp
  show ?thesis
    by (simp add: calculateImageStats_def statTotals_no_eligible [OF h]
          varianceLoop_no_eligible [OF h] js_div_def js_quot_def)
qed

lemma palette_without_samples:
  assumes "samplePixels pixels = []"
  shows "dominantColors (extractColorPalette pixels numColors) =
       [\<lparr> hex = ''#NaNNaNNaN'', rgb = (NaN, NaN, NaN), percentage = NaN \<rparr>]"
proof -
  have m: "medianCut [] numColors = [[NaN, NaN, NaN]]"
    by (simp add: medianCut.simps [of "[]" numColors] averageColor_def js_div_def)
  have a: "medianCut_array [] numColors = []" by (simp add: medianCut_array_def)
  have h: "rgbToHex NaN NaN NaN = ''#NaNNaNNaN''" by (simp add: rgbToHex_def toString16_def)
  show ?thesis
    by (simp add: extractColorPalette_def assms m a Let_def colorCount_def colorInfo_def
          js_div_def js_sort_def h)
qed

section \<open>Statistics of an image of one colour\<close>












section \<open>Properties of the response reader\<close>

lemma askModel_Inr:
  "askModel generateContent enabled p store (Inr result) =
     (if enabled then (case generateContent p of Inl e \<Rightarrow> Inl e | Inr text \<Rightarrow> Inr (store text result))
      else Inr result)"
  by (simp add: askModel_def)

lemma analyze_ocr_only:
  assumes "apiKey \<noteq> []" and "generateContent OcrPrompt = Inr text"
  shows "analyzeImageWithGemini JSON_parse generateContent apiKey
           \<lparr> extractOCR = True, detectObjects = False, analyzeUI = False, analyzeDesign = False \<rparr>
         = Inr \<lparr> ocr = Some (parseJSONResponse JSON_parse text (JArray [])), objects = None,
                 description = None, uiElements = None, designAnalysis = None \<rparr>"
  using assms by (simp add: analyzeImageWithGemini_def askModel_Inr Let_def)

text \<open>
  C9. When the answer's text, trimmed and with its code fences removed, is not valid
  JSON, \<open>parseJSONResponse\<close> returns the fallback it was given; it returns a value in
  every case, never a fault. In particular a text-extraction request whose answer is
  malformed ends with \<open>ocr\<close> set to the empty array.
\<close>

theorem parseJSONResponse_fallback:
  assumes "JSON_parse (cleanResponse text) = None"
  shows "parseJSONResponse JSON_parse text fallback = fallback
       \<and> (apiKey \<noteq> [] \<and> generateContent OcrPrompt = Inr text \<longrightarrow>
            (\<exists>result. analyzeImageWithGemini JSON_parse generateContent apiKey
                         \<lparr> extractOCR = True, detectObjects = False,
                           analyzeUI = False, analyzeDesign = False \<rparr> = Inr result
                       \<and> ocr result = Some (JArray [])))"
proof -
  have fb: "parseJSONResponse JSON_parse text fb = fb" for fb
    using assms by (simp add: parseJSONResponse_def)
  show ?thesis
  proof (intro conjI impI)
    show "parseJSONResponse JSON_parse text fallback = fallback" by (rule fb)
  next
    assume "apiKey \<noteq> [] \<and> generateContent OcrPrompt = Inr text"
    then have "analyzeImageWithGemini JSON_parse generateContent apiKey
           \<lparr> extractOCR = True, detectObjects = False, analyzeUI = False, analyzeDesign = False \<rparr>
         = Inr \<lparr> ocr = Some (parseJSONResponse JSON_parse text (JArray [])), objects = None,
                 description = None, uiElements = None, designAnalysis = None \<rparr>"
      by (intro analyze_ocr_only) simp_all
    then show "\<exists>result. analyzeImageWithGemini JSON_parse generateContent apiKey
                         \<lparr> extractOCR = True, detectObjects = False,
                           analyzeUI = False, analyzeDesign = False \<rparr> = Inr result
                       \<and> ocr result = Some (JArray [])"
      by (simp add: fb)
  qed
qed

theorem parseJSONResponse_fallback_witness:
  "onlyEmptyArray (cleanResponse (fence @ ''json'' @ [newline] @ ''oops'' @ [newline] @ fence)) = None
   \<and> parseJSONResponse onlyEmptyArray (fence @ ''json'' @ [newline] @ ''oops'' @ [newline] @ fence) JNull = JNull
   \<and> (\<exists>result. analyzeImageWithGemini onlyEmptyArray
                  (\<lambda>p. Inr (fence @ ''json'' @ [newline] @ ''oops'' @ [newline] @ fence)) ''key''
                  \<lparr> extractOCR = True, detectObjects = False, analyzeUI = False, analyzeDesign = False \<rparr>
                = Inr result
               \<and> ocr result = Some (JArray []))"
proof -
  have h: "onlyEmptyArray (cleanResponse (fence @ ''json'' @ [newline] @ ''oops'' @ [newline] @ fence)) = None"
    by code_simp
  have k: "''key'' \<noteq> [] \<and> (\<lambda>p :: prompt. (Inr (fence @ ''json'' @ [newline] @ ''oops'' @ [newline] @ fence) :: string + string)) OcrPrompt
             = Inr (fence @ ''json'' @ [newline] @ ''oops'' @ [newline] @ fence)"
    by simp
  from parseJSONResponse_fallback
         [of onlyEmptyArray "fence @ ''json'' @ [newline] @ ''oops'' @ [newline] @ fence"
             JNull "''key''"
             "\<lambda>p. Inr (fence @ ''json'' @ [newline] @ ''oops'' @ [newline] @ fence)", OF h] k h
  show ?thesis by blast
qed

lemma fenced_json_is_read:
  "cleanResponse (fence @ ''json'' @ [newline] @ ''[]'' @ [newline] @ fence) = ''[]'' @ [newline]
   \<and> parseJSONResponse onlyEmptyArray (fence @ ''json'' @ [newline] @ ''[]'' @ [newline] @ fence) JNull
       = JArray []"
  by code_simp

end
